theory Spec2Isabelle
  imports Main "HOL-Library.Word"
begin

section \<open>The AnonVoteFHE contract (contracts/index.sol)\<close>

text \<open>
  The contract is embedded function by function. Solidity's \<open>uint256\<close> is a 256-bit
  word, an \<open>address\<close> a 160-bit word, \<open>bytes\<close> a list of 8-bit words, a \<open>string\<close>
  its list of bytes. A Solidity \<open>mapping\<close> has a value at every key (the zero value where
  nothing was stored), so it is a total function.

  Every external function takes the call environment (\<open>msg.sender\<close>, \<open>block.timestamp\<close>)
  and the contract's storage, and returns its outcome together with the storage as it
  stands where the function stops: at the \<open>revert\<close>, at the panic of a checked
  operation (0x11 arithmetic overflow, 0x32 index out of bounds), or at its end. The
  statements are kept in the order of the source, so that the storage returned with an
  error shows what had been written before the error was raised. The rollback the EVM
  performs on a failed call is the separate function \<open>transact\<close>.
\<close>

type_synonym uint256 = "256 word"
type_synonym address = "160 word"
type_synonym byte = "8 word"

record Vote =
  title :: string
  description :: string
  options :: "string list"
  deadline :: uint256
  totalVoters :: uint256
  isActive :: bool
  isRevealed :: bool
  creator :: address
  hasVoted :: "address \<Rightarrow> bool"
  encryptedVotes :: "address \<Rightarrow> byte list"
  revealedCounts :: "uint256 list"

datatype event =
    VoteCreated uint256 address string uint256
  | VoteCast uint256 address uint256 string
  | VoteRevealed uint256 "uint256 list"

datatype error =
    VoteNotFound
  | VoteExpired
  | VoteNotExpired
  | AlreadyVoted
  | InvalidOption
  | VoteAlreadyRevealed
  | NotVoteCreator
  | InvalidDeadline
  | EmptyTitle
  | NoOptions
  | TooManyOptions
  | Panic nat

text \<open>
  The storage of the contract: its own three variables, the \<open>_owner\<close> variable inherited
  from Ownable (read by \<open>owner()\<close>), and the events emitted so far.
\<close>

record AnonVoteFHE =
  votes :: "uint256 \<Rightarrow> Vote"
  nextVoteId :: uint256
  voteRevealRequested :: "uint256 \<Rightarrow> bool"
  owner :: address
  emitted :: "event list"

record env =
  msg_sender :: address
  block_timestamp :: uint256

text \<open>The zero value of the struct, which every key of \<open>votes\<close> holds before it is written.\<close>

definition zeroVote :: Vote where
  "zeroVote = \<lparr> title = [], description = [], options = [], deadline = 0,
     totalVoters = 0, isActive = False, isRevealed = False, creator = 0,
     hasVoted = (\<lambda>_. False), encryptedVotes = (\<lambda>_. []), revealedCounts = [] \<rparr>"

text \<open>
  Deployment. The contract's own constructor is empty; the constructor of Ownable makes
  the deployer the owner.
\<close>

definition constructor :: "address \<Rightarrow> AnonVoteFHE" where
  "constructor deployer = \<lparr> votes = (\<lambda>_. zeroVote), nextVoteId = 0,
     voteRevealRequested = (\<lambda>_. False), owner = deployer, emitted = [] \<rparr>"

text \<open>A write through the storage pointer \<open>Vote storage vote = votes[voteId]\<close>.\<close>

definition storeVote :: "uint256 \<Rightarrow> (Vote \<Rightarrow> Vote) \<Rightarrow> AnonVoteFHE \<Rightarrow> AnonVoteFHE" where
  "storeVote voteId f s = s\<lparr> votes := (votes s)(voteId := f (votes s voteId)) \<rparr>"

definition emit :: "event \<Rightarrow> AnonVoteFHE \<Rightarrow> AnonVoteFHE" where
  "emit ev s = s\<lparr> emitted := emitted s @ [ev] \<rparr>"

subsection \<open>createVote\<close>

text \<open>
  The four checks, then \<open>nextVoteId++\<close> (checked: it panics at the largest value), then
  the eight field writes and the fresh tally array. The two mappings of the struct are not
  written.
\<close>

definition createVote ::
  "env \<Rightarrow> string \<Rightarrow> string \<Rightarrow> string list \<Rightarrow> uint256 \<Rightarrow> AnonVoteFHE \<Rightarrow> (error + uint256) \<times> AnonVoteFHE"
where
  "createVote e ttl descr opts dl s =
    (if length ttl = 0 then (Inl EmptyTitle, s)
     else if length opts = 0 then (Inl NoOptions, s)
     else if length opts > 10 then (Inl TooManyOptions, s)
     else if dl \<le> block_timestamp e then (Inl InvalidDeadline, s)
     else if nextVoteId s = - 1 then (Inl (Panic 17), s)
     else
       let voteId = nextVoteId s;
           s1 = s\<lparr> nextVoteId := nextVoteId s + 1 \<rparr>;
           s2 = storeVote voteId (\<lambda>v. v\<lparr> title := ttl \<rparr>) s1;
           s3 = storeVote voteId (\<lambda>v. v\<lparr> description := descr \<rparr>) s2;
           s4 = storeVote voteId (\<lambda>v. v\<lparr> options := opts \<rparr>) s3;
           s5 = storeVote voteId (\<lambda>v. v\<lparr> deadline := dl \<rparr>) s4;
           s6 = storeVote voteId (\<lambda>v. v\<lparr> totalVoters := 0 \<rparr>) s5;
           s7 = storeVote voteId (\<lambda>v. v\<lparr> isActive := True \<rparr>) s6;
           s8 = storeVote voteId (\<lambda>v. v\<lparr> isRevealed := False \<rparr>) s7;
           s9 = storeVote voteId (\<lambda>v. v\<lparr> creator := msg_sender e \<rparr>) s8;
           s10 = storeVote voteId (\<lambda>v. v\<lparr> revealedCounts := replicate (length opts) 0 \<rparr>) s9
       in (Inr voteId, emit (VoteCreated voteId (msg_sender e) ttl dl) s10))"

subsection \<open>castVote\<close>

text \<open>
  \<open>bytes2(b)\<close> is the first two bytes of \<open>b\<close>, padded with zero bytes on the right;
  \<open>uint16\<close> reads them with the first byte as the high one.
\<close>

definition bytes2 :: "byte list \<Rightarrow> byte \<times> byte" where
  "bytes2 b = ((b @ [0, 0]) ! 0, (b @ [0, 0]) ! 1)"

definition uint16 :: "byte \<times> byte \<Rightarrow> 16 word" where
  "uint16 p = ucast (fst p) * 256 + ucast (snd p)"

text \<open>Lines 127 to 137: the choice index read from the payload.\<close>

definition choiceIndex :: "byte list \<Rightarrow> Vote \<Rightarrow> uint256" where
  "choiceIndex encryptedChoice vote =
    (if length encryptedChoice \<ge> 2 then
       let c = (if length encryptedChoice = 2
                then ucast (uint16 (bytes2 encryptedChoice)) else 0)
       in if unat c \<ge> length (options vote) then 0 else c
     else 0)"

text \<open>
  The \<open>nonReentrant\<close> modifier sets a private flag of ReentrancyGuard on entry and
  clears it on exit; the body makes no external call, so the flag is clear at every entry
  and the modifier has no effect on the outcome.
\<close>

definition castVote ::
  "env \<Rightarrow> uint256 \<Rightarrow> byte list \<Rightarrow> AnonVoteFHE \<Rightarrow> (error + unit) \<times> AnonVoteFHE"
where
  "castVote e voteId encryptedChoice s =
    (if \<not> isActive (votes s voteId) then (Inl VoteNotFound, s)
     else if block_timestamp e \<ge> deadline (votes s voteId) then (Inl VoteExpired, s)
     else if hasVoted (votes s voteId) (msg_sender e) then (Inl AlreadyVoted, s)
     else
       let ci = choiceIndex encryptedChoice (votes s voteId);
           s1 = storeVote voteId
                  (\<lambda>v. v\<lparr> encryptedVotes := (encryptedVotes v)(msg_sender e := encryptedChoice) \<rparr>) s;
           s2 = storeVote voteId (\<lambda>v. v\<lparr> hasVoted := (hasVoted v)(msg_sender e := True) \<rparr>) s1
       in if totalVoters (votes s2 voteId) = - 1 then (Inl (Panic 17), s2)
       else
         let s3 = storeVote voteId (\<lambda>v. v\<lparr> totalVoters := totalVoters v + 1 \<rparr>) s2
         in if \<not> unat ci < length (revealedCounts (votes s3 voteId)) then (Inl (Panic 50), s3)
         else if revealedCounts (votes s3 voteId) ! unat ci = - 1 then (Inl (Panic 17), s3)
         else
           let s4 = storeVote voteId
                      (\<lambda>v. v\<lparr> revealedCounts :=
                              (revealedCounts v)[unat ci := revealedCounts v ! unat ci + 1] \<rparr>) s3;
               s5 = storeVote voteId (\<lambda>v. v\<lparr> isRevealed := True \<rparr>) s4
           in if \<not> unat ci < length (options (votes s5 voteId)) then (Inl (Panic 50), s5)
           else (Inr (),
                 emit (VoteCast voteId (msg_sender e) ci (options (votes s5 voteId) ! unat ci)) s5))"

subsection \<open>revealVoteResults and endVoteEarly\<close>

definition revealVoteResults ::
  "env \<Rightarrow> uint256 \<Rightarrow> uint256 list \<Rightarrow> AnonVoteFHE \<Rightarrow> (error + unit) \<times> AnonVoteFHE"
where
  "revealVoteResults e voteId decryptedCounts s =
    (if \<not> isActive (votes s voteId) then (Inl VoteNotFound, s)
     else if msg_sender e \<noteq> creator (votes s voteId) \<and> msg_sender e \<noteq> owner s
       then (Inl NotVoteCreator, s)
     else if block_timestamp e < deadline (votes s voteId) then (Inl VoteNotExpired, s)
     else if isRevealed (votes s voteId) then (Inl VoteAlreadyRevealed, s)
     else if length decryptedCounts \<noteq> length (options (votes s voteId))
       then (Inl InvalidOption, s)
     else
       let s1 = storeVote voteId (\<lambda>v. v\<lparr> revealedCounts := decryptedCounts \<rparr>) s;
           s2 = storeVote voteId (\<lambda>v. v\<lparr> isRevealed := True \<rparr>) s1;
           s3 = s2\<lparr> voteRevealRequested := (voteRevealRequested s2)(voteId := True) \<rparr>
       in (Inr (), emit (VoteRevealed voteId decryptedCounts) s3))"

definition endVoteEarly :: "env \<Rightarrow> uint256 \<Rightarrow> AnonVoteFHE \<Rightarrow> (error + unit) \<times> AnonVoteFHE" where
  "endVoteEarly e voteId s =
    (if \<not> isActive (votes s voteId) then (Inl VoteNotFound, s)
     else if msg_sender e \<noteq> creator (votes s voteId) \<and> msg_sender e \<noteq> owner s
       then (Inl NotVoteCreator, s)
     else (Inr (), storeVote voteId (\<lambda>v. v\<lparr> deadline := block_timestamp e \<rparr>) s))"

subsection \<open>View functions\<close>

definition getVoteResults :: "uint256 \<Rightarrow> AnonVoteFHE \<Rightarrow> error + uint256 list" where
  "getVoteResults voteId s =
    (if \<not> isActive (votes s voteId) then Inl VoteNotFound
     else Inr (revealedCounts (votes s voteId)))"

definition hasAddressVoted :: "uint256 \<Rightarrow> address \<Rightarrow> AnonVoteFHE \<Rightarrow> error + bool" where
  "hasAddressVoted voteId addr s = Inr (hasVoted (votes s voteId) addr)"

definition getTotalVotes :: "AnonVoteFHE \<Rightarrow> error + uint256" where
  "getTotalVotes s = Inr (nextVoteId s)"

definition isVoteExpired :: "env \<Rightarrow> uint256 \<Rightarrow> AnonVoteFHE \<Rightarrow> error + bool" where
  "isVoteExpired e voteId s = Inr (block_timestamp e \<ge> deadline (votes s voteId))"

subsection \<open>Transactions and runs\<close>

text \<open>
  A call to the contract. The entry points inherited from Ownable (\<open>transferOwnership\<close>,
  \<open>renounceOwnership\<close>) are library code outside the repository; all they can write is
  the owner, so they are covered by \<open>OwnerChange\<close>, which lets the owner become any
  address at any time.
\<close>

datatype call =
    CreateVote string string "string list" uint256
  | CastVote uint256 "byte list"
  | RevealVoteResults uint256 "uint256 list"
  | EndVoteEarly uint256
  | OwnerChange address

datatype retval = RId uint256 | RUnit

fun exec :: "env \<Rightarrow> call \<Rightarrow> AnonVoteFHE \<Rightarrow> (error + retval) \<times> AnonVoteFHE" where
  "exec e (CreateVote ttl descr opts dl) s = apfst (map_sum id RId) (createVote e ttl descr opts dl s)"
| "exec e (CastVote voteId encryptedChoice) s =
     apfst (map_sum id (\<lambda>_. RUnit)) (castVote e voteId encryptedChoice s)"
| "exec e (RevealVoteResults voteId decryptedCounts) s =
     apfst (map_sum id (\<lambda>_. RUnit)) (revealVoteResults e voteId decryptedCounts s)"
| "exec e (EndVoteEarly voteId) s = apfst (map_sum id (\<lambda>_. RUnit)) (endVoteEarly e voteId s)"
| "exec e (OwnerChange a) s = (Inr RUnit, s\<lparr> owner := a \<rparr>)"

text \<open>The EVM commits the storage of a call that returns and restores it when the call fails.\<close>

definition transact :: "env \<Rightarrow> call \<Rightarrow> AnonVoteFHE \<Rightarrow> (error + retval) \<times> AnonVoteFHE" where
  "transact e c s = (case exec e c s of (Inl err, _) \<Rightarrow> (Inl err, s) | (Inr r, s') \<Rightarrow> (Inr r, s'))"

text \<open>A run applies a list of calls in order; \<open>outcomes\<close> is what each of them returned.\<close>

fun run :: "AnonVoteFHE \<Rightarrow> (env \<times> call) list \<Rightarrow> AnonVoteFHE" where
  "run s [] = s"
| "run s (ec # tr) = run (snd (transact (fst ec) (snd ec) s)) tr"

fun outcomes :: "AnonVoteFHE \<Rightarrow> (env \<times> call) list \<Rightarrow> (env \<times> call \<times> (error + retval)) list" where
  "outcomes s [] = []"
| "outcomes s (ec # tr) =
     (fst ec, snd ec, fst (transact (fst ec) (snd ec) s))
       # outcomes (snd (transact (fst ec) (snd ec) s)) tr"

subsection \<open>Notions used by the properties\<close>

text \<open>The errors the contract declares, as opposed to the panics of checked operations.\<close>

definition named :: "error \<Rightarrow> bool" where
  "named err = (case err of Panic _ \<Rightarrow> False | _ \<Rightarrow> True)"

text \<open>
  Block timestamps never decrease from one call to the next: \<open>chrono t tr\<close> says that
  the calls of \<open>tr\<close> come in the order of their timestamps, none before \<open>t\<close>.
\<close>

fun chrono :: "uint256 \<Rightarrow> (env \<times> call) list \<Rightarrow> bool" where
  "chrono t [] = True"
| "chrono t (ec # tr) = (t \<le> block_timestamp (fst ec) \<and> chrono (block_timestamp (fst ec)) tr)"

fun clock :: "uint256 \<Rightarrow> (env \<times> call) list \<Rightarrow> uint256" where
  "clock t [] = t"
| "clock t (ec # tr) = clock (block_timestamp (fst ec)) tr"

text \<open>The value of a byte string read as a big-endian unsigned integer.\<close>

definition big_endian :: "byte list \<Rightarrow> nat" where
  "big_endian b = foldl (\<lambda>n x. n * 256 + unat x) 0 b"

text \<open>What a run has done, read off its outcomes.\<close>

fun createdIds :: "(env \<times> call \<times> (error + retval)) list \<Rightarrow> uint256 list" where
  "createdIds [] = []"
| "createdIds ((e, c, Inr (RId i)) # l) = i # createdIds l"
| "createdIds (x # l) = createdIds l"

fun isRevealOf :: "uint256 \<Rightarrow> call \<Rightarrow> bool" where
  "isRevealOf i (RevealVoteResults j cs) = (i = j)"
| "isRevealOf i c = False"

fun isCastOn :: "uint256 \<Rightarrow> call \<Rightarrow> bool" where
  "isCastOn i (CastVote j p) = (i = j)"
| "isCastOn i c = False"

definition revealedIn :: "(env \<times> call \<times> (error + retval)) list \<Rightarrow> uint256 \<Rightarrow> bool" where
  "revealedIn l i = list_ex (\<lambda>x. isRevealOf i (fst (snd x)) \<and> \<not> isl (snd (snd x))) l"

definition votesCastOn :: "(env \<times> call \<times> (error + retval)) list \<Rightarrow> uint256 \<Rightarrow> nat" where
  "votesCastOn l i = length (filter (\<lambda>x. isCastOn i (fst (snd x)) \<and> \<not> isl (snd (snd x))) l)"

text \<open>Whether the run has accepted a vote of principal \<open>a\<close> on poll \<open>i\<close>.\<close>

definition votedIn :: "(env \<times> call \<times> (error + retval)) list \<Rightarrow> uint256 \<Rightarrow> address \<Rightarrow> bool" where
  "votedIn l i a =
     list_ex (\<lambda>x. isCastOn i (fst (snd x)) \<and> msg_sender (fst x) = a \<and> \<not> isl (snd (snd x))) l"

text \<open>
  The time at which poll \<open>i\<close> was created and the deadline it was given, if the run
  created it.
\<close>

fun creationOf :: "(env \<times> call \<times> (error + retval)) list \<Rightarrow> uint256 \<Rightarrow> (uint256 \<times> uint256) option" where
  "creationOf [] i = None"
| "creationOf ((e, CreateVote ttl descr opts dl, Inr (RId j)) # l) i =
     (if i = j then Some (block_timestamp e, dl) else creationOf l i)"
| "creationOf (x # l) i = creationOf l i"

text \<open>
  The facts about one poll that every call keeps: the allocated ids are those below
  \<open>nextVoteId\<close>, a slot never allocated holds the zero value, and the tallies agree with
  the participation records.
\<close>

definition wf_poll :: "AnonVoteFHE \<Rightarrow> uint256 \<Rightarrow> bool" where
  "wf_poll s i \<longleftrightarrow>
     (isActive (votes s i) \<longleftrightarrow> i < nextVoteId s) \<and>
     (\<not> isActive (votes s i) \<longrightarrow> votes s i = zeroVote \<and> \<not> voteRevealRequested s i) \<and>
     (isActive (votes s i) \<longrightarrow> 1 \<le> length (options (votes s i)) \<and> length (options (votes s i)) \<le> 10) \<and>
     length (revealedCounts (votes s i)) = length (options (votes s i)) \<and>
     (\<not> isRevealed (votes s i) \<longrightarrow> totalVoters (votes s i) = 0) \<and>
     unat (totalVoters (votes s i)) = card {a. hasVoted (votes s i) a} \<and>
     (\<not> voteRevealRequested s i \<longrightarrow>
        sum_list (map unat (revealedCounts (votes s i))) = unat (totalVoters (votes s i)))"

definition inv :: "AnonVoteFHE \<Rightarrow> bool" where
  "inv s \<longleftrightarrow> (\<forall>i. wf_poll s i)"

text \<open>At time \<open>t\<close>, every poll whose results were supplied by a reveal has its deadline behind it.\<close>

definition settled :: "uint256 \<Rightarrow> AnonVoteFHE \<Rightarrow> bool" where
  "settled t s \<longleftrightarrow> (\<forall>i. voteRevealRequested s i \<longrightarrow> deadline (votes s i) \<le> t)"

text \<open>A short run used to evaluate the contract: a poll with two options and one vote for the second.\<close>

definition demo :: "(env \<times> call) list" where
  "demo = [(\<lparr>msg_sender = 1, block_timestamp = 100\<rparr>, CreateVote ''T'' ''D'' [''A'', ''B''] 3700),
           (\<lparr>msg_sender = 7, block_timestamp = 101\<rparr>, CastVote 0 [0, 1])]"

section \<open>Basic facts\<close>

subsection \<open>Words, tallies and participation records\<close>

lemma unat_succ: "x \<noteq> - 1 \<Longrightarrow> unat (x + 1 :: 'a::len word) = Suc (unat x)"
  by (metis add.commute unatSuc add_eq_0_iff2)

lemma word_less_succ: "i \<noteq> - 1 \<Longrightarrow> (j < i + 1) \<longleftrightarrow> (j < i \<or> j = (i :: 'a::len word))"
  by (auto simp add: word_less_nat_alt unat_succ word_unat_eq_iff)

lemma sum_unat_bump:
  "k < length cs \<Longrightarrow> cs ! k \<noteq> - 1 \<Longrightarrow>
     sum_list (map unat (cs[k := cs ! k + 1])) = Suc (sum_list (map unat (cs :: 'a::len word list)))"
  by (simp add: map_update sum_list_update unat_succ)

lemma card_voted:
  assumes "\<not> h x"
  shows "card {a. a \<noteq> x \<longrightarrow> h a} = Suc (card (Collect h :: 'a::finite set))"
proof -
  have "{a. a \<noteq> x \<longrightarrow> h a} = insert x {a. h a}" by auto
  moreover have "x \<notin> {a. h a}" using assms by simp
  ultimately show ?thesis by simp
qed

lemma castVote_Inr:
  assumes "castVote e i p s = (Inr u, s')"
  defines "ci \<equiv> choiceIndex p (votes s i)"
  shows "isActive (votes s i)" "block_timestamp e < deadline (votes s i)"
    "\<not> hasVoted (votes s i) (msg_sender e)" "totalVoters (votes s i) \<noteq> - 1"
    "unat ci < length (revealedCounts (votes s i))" "revealedCounts (votes s i) ! unat ci \<noteq> - 1"
    "unat ci < length (options (votes s i))"
    "s' = s\<lparr> votes := (votes s)(i := (votes s i)\<lparr>
               encryptedVotes := (encryptedVotes (votes s i))(msg_sender e := p),
               hasVoted := (hasVoted (votes s i))(msg_sender e := True),
               totalVoters := totalVoters (votes s i) + 1,
               revealedCounts := (revealedCounts (votes s i))[unat ci := revealedCounts (votes s i) ! unat ci + 1],
               isRevealed := True \<rparr>),
             emitted := emitted s @ [VoteCast i (msg_sender e) ci (options (votes s i) ! unat ci)] \<rparr>"
  using assms(1) unfolding ci_def
  by (auto simp add: castVote_def storeVote_def emit_def Let_def not_le split: if_splits)

lemma createVote_Inr:
  assumes "createVote e ttl descr opts dl s = (Inr v, s')"
  shows "ttl \<noteq> []" "opts \<noteq> []" "length opts \<le> 10" "block_timestamp e < dl"
    "nextVoteId s \<noteq> - 1" "v = nextVoteId s"
    "s' = s\<lparr> nextVoteId := nextVoteId s + 1,
             votes := (votes s)(nextVoteId s := (votes s (nextVoteId s))\<lparr>
               title := ttl, description := descr, options := opts, deadline := dl,
               totalVoters := 0, isActive := True, isRevealed := False,
               creator := msg_sender e, revealedCounts := replicate (length opts) 0 \<rparr>),
             emitted := emitted s @ [VoteCreated (nextVoteId s) (msg_sender e) ttl dl] \<rparr>"
  using assms
  by (auto simp add: createVote_def storeVote_def emit_def Let_def not_le split: if_splits)

lemma revealVoteResults_Inr:
  assumes "revealVoteResults e i cs s = (Inr u, s')"
  shows "isActive (votes s i)" "msg_sender e = creator (votes s i) \<or> msg_sender e = owner s"
    "deadline (votes s i) \<le> block_timestamp e" "\<not> isRevealed (votes s i)"
    "length cs = length (options (votes s i))"
    "s' = s\<lparr> votes := (votes s)(i := (votes s i)\<lparr> revealedCounts := cs, isRevealed := True \<rparr>),
             voteRevealRequested := (voteRevealRequested s)(i := True),
             emitted := emitted s @ [VoteRevealed i cs] \<rparr>"
  using assms
  by (auto simp add: revealVoteResults_def storeVote_def emit_def Let_def not_less split: if_splits)

lemma endVoteEarly_Inr:
  assumes "endVoteEarly e i s = (Inr u, s')"
  shows "isActive (votes s i)" "msg_sender e = creator (votes s i) \<or> msg_sender e = owner s"
    "s' = s\<lparr> votes := (votes s)(i := (votes s i)\<lparr> deadline := block_timestamp e \<rparr>) \<rparr>"
  using assms
  by (auto simp add: endVoteEarly_def storeVote_def split: if_splits)

lemma inv_constructor: "inv (constructor d)"
  by (simp add: inv_def wf_poll_def constructor_def zeroVote_def word_less_nat_alt)

lemma inv_createVote:
  assumes "inv s" "createVote e ttl descr opts dl s = (Inr v, s')"
  shows "inv s'"
proof -
  note E = createVote_Inr[OF assms(2)]
  have fresh: "votes s (nextVoteId s) = zeroVote" "\<not> voteRevealRequested s (nextVoteId s)"
    using assms(1) by (auto simp: inv_def wf_poll_def)
  show ?thesis unfolding inv_def
  proof
    fix j
    have wj: "wf_poll s j" using assms(1) by (simp add: inv_def)
    show "wf_poll s' j"
    proof (cases "j = nextVoteId s")
      case True
      then show ?thesis using E(1-5) fresh
        by (simp add: E(7) wf_poll_def zeroVote_def word_less_succ Suc_le_eq)
    next
      case False
      then show ?thesis using wj E(5)
        by (simp add: E(7) wf_poll_def word_less_succ)
    qed
  qed
qed

lemma inv_castVote:
  assumes "inv s" "castVote e i p s = (Inr u, s')"
  shows "inv s'"
proof -
  note E = castVote_Inr[OF assms(2)]
  show ?thesis unfolding inv_def
  proof
    fix j
    have wj: "wf_poll s j" using assms(1) by (simp add: inv_def)
    show "wf_poll s' j"
    proof (cases "j = i")
      case True
      then show ?thesis using wj E(1-7)
        by (simp add: E(8) wf_poll_def card_voted sum_unat_bump unat_succ)
    next
      case False
      then show ?thesis using wj
        by (simp add: E(8) wf_poll_def)
    qed
  qed
qed

lemma inv_revealVoteResults:
  assumes "inv s" "revealVoteResults e i cs s = (Inr u, s')"
  shows "inv s'"
proof -
  note E = revealVoteResults_Inr[OF assms(2)]
  show ?thesis unfolding inv_def
  proof
    fix j
    have wj: "wf_poll s j" using assms(1) by (simp add: inv_def)
    show "wf_poll s' j"
    proof (cases "j = i")
      case True
      then show ?thesis using wj E(1-5)
        by (auto simp add: E(6) wf_poll_def)
    next
      case False
      then show ?thesis using wj
        by (simp add: E(6) wf_poll_def)
    qed
  qed
qed

lemma inv_endVoteEarly:
  assumes "inv s" "endVoteEarly e i s = (Inr u, s')"
  shows "inv s'"
proof -
  note E = endVoteEarly_Inr[OF assms(2)]
  show ?thesis unfolding inv_def
  proof
    fix j
    have wj: "wf_poll s j" using assms(1) by (simp add: inv_def)
    show "wf_poll s' j"
    proof (cases "j = i")
      case True
      then show ?thesis using wj E(1)
        by (simp add: E(3) wf_poll_def zeroVote_def)
    next
      case False
      then show ?thesis using wj
        by (simp add: E(3) wf_poll_def)
    qed
  qed
qed

lemma inv_owner: "inv s \<Longrightarrow> inv (s\<lparr> owner := a \<rparr>)"
  by (simp add: inv_def wf_poll_def)

lemma transact_Inl: "fst (exec e c s) = Inl err \<Longrightarrow> transact e c s = (Inl err, s)"
  by (cases "exec e c s") (simp add: transact_def)

lemma transact_Inr: "fst (exec e c s) = Inr r \<Longrightarrow> transact e c s = exec e c s"
  by (cases "exec e c s") (simp add: transact_def)

lemma inv_transact:
  assumes "inv s"
  shows "inv (snd (transact e c s))"
proof (cases "fst (exec e c s)")
  case (Inl err)
  then show ?thesis using assms by (simp add: transact_Inl)
next
  case (Inr r)
  then have T: "transact e c s = exec e c s" by (rule transact_Inr)
  show ?thesis
  proof (cases c)
    case (CreateVote ttl descr opts dl)
    with Inr obtain v where "createVote e ttl descr opts dl s = (Inr v, snd (exec e c s))"
      by (cases "createVote e ttl descr opts dl s"; cases "fst (createVote e ttl descr opts dl s)") auto
    then show ?thesis using assms T by (auto intro: inv_createVote)
  next
    case (CastVote i p)
    with Inr obtain v where "castVote e i p s = (Inr v, snd (exec e c s))"
      by (cases "castVote e i p s"; cases "fst (castVote e i p s)") auto
    then show ?thesis using assms T by (auto intro: inv_castVote)
  next
    case (RevealVoteResults i cs)
    with Inr obtain v where "revealVoteResults e i cs s = (Inr v, snd (exec e c s))"
      by (cases "revealVoteResults e i cs s"; cases "fst (revealVoteResults e i cs s)") auto
    then show ?thesis using assms T by (auto intro: inv_revealVoteResults)
  next
    case (EndVoteEarly i)
    with Inr obtain v where "endVoteEarly e i s = (Inr v, snd (exec e c s))"
      by (cases "endVoteEarly e i s"; cases "fst (endVoteEarly e i s)") auto
    then show ?thesis using assms T by (auto intro: inv_endVoteEarly)
  next
    case (OwnerChange a)
    then show ?thesis using assms T by (simp add: inv_owner)
  qed
qed

lemma inv_run: "inv s \<Longrightarrow> inv (run s tr)"
  by (induction tr arbitrary: s) (simp_all add: inv_transact)

lemma run_snoc: "run s (tr @ [(e, c)]) = snd (transact e c (run s tr))"
  by (induction tr arbitrary: s) simp_all

subsection \<open>The outcomes of a transaction\<close>

lemma transact_effect:
  obtains (fail) err where "transact e c s = (Inl err, s)"
  | (create) ttl descr opts dl s' where "c = CreateVote ttl descr opts dl"
      "createVote e ttl descr opts dl s = (Inr (nextVoteId s), s')"
      "transact e c s = (Inr (RId (nextVoteId s)), s')"
  | (cast) i p s' where "c = CastVote i p" "castVote e i p s = (Inr (), s')"
      "transact e c s = (Inr RUnit, s')"
  | (reveal) i cs s' where "c = RevealVoteResults i cs" "revealVoteResults e i cs s = (Inr (), s')"
      "transact e c s = (Inr RUnit, s')"
  | (endEarly) i s' where "c = EndVoteEarly i" "endVoteEarly e i s = (Inr (), s')"
      "transact e c s = (Inr RUnit, s')"
  | (owner) a where "c = OwnerChange a" "transact e c s = (Inr RUnit, s\<lparr> owner := a \<rparr>)"
proof (cases "fst (exec e c s)")
  case (Inl err)
  then have "transact e c s = (Inl err, s)" by (rule transact_Inl)
  then show ?thesis by (rule fail)
next
  case (Inr r)
  note T = transact_Inr[OF Inr]
  show ?thesis
  proof (cases c)
    case (CreateVote ttl descr opts dl)
    obtain x s' where C: "createVote e ttl descr opts dl s = (x, s')"
      by (cases "createVote e ttl descr opts dl s")
    with Inr CreateVote obtain v where x: "x = Inr v" by (cases x) auto
    from createVote_Inr(6)[OF C[unfolded x]] have v: "v = nextVoteId s" .
    have C': "createVote e ttl descr opts dl s = (Inr (nextVoteId s), s')"
      using C x v by simp
    have "transact e c s = (Inr (RId (nextVoteId s)), s')"
      unfolding T by (simp add: CreateVote C')
    with CreateVote C' show ?thesis by (rule create)
  next
    case (CastVote i p)
    obtain x s' where C: "castVote e i p s = (x, s')" by (cases "castVote e i p s")
    with Inr CastVote have x: "x = Inr ()" by (cases x) auto
    have C': "castVote e i p s = (Inr (), s')" using C x by simp
    have "transact e c s = (Inr RUnit, s')" unfolding T by (simp add: CastVote C')
    with CastVote C' show ?thesis by (rule cast)
  next
    case (RevealVoteResults i cs)
    obtain x s' where C: "revealVoteResults e i cs s = (x, s')" by (cases "revealVoteResults e i cs s")
    with Inr RevealVoteResults have x: "x = Inr ()" by (cases x) auto
    have C': "revealVoteResults e i cs s = (Inr (), s')" using C x by simp
    have "transact e c s = (Inr RUnit, s')" unfolding T by (simp add: RevealVoteResults C')
    with RevealVoteResults C' show ?thesis by (rule reveal)
  next
    case (EndVoteEarly i)
    obtain x s' where C: "endVoteEarly e i s = (x, s')" by (cases "endVoteEarly e i s")
    with Inr EndVoteEarly have x: "x = Inr ()" by (cases x) auto
    have C': "endVoteEarly e i s = (Inr (), s')" using C x by simp
    have "transact e c s = (Inr RUnit, s')" unfolding T by (simp add: EndVoteEarly C')
    with EndVoteEarly C' show ?thesis by (rule endEarly)
  next
    case (OwnerChange a)
    have "transact e c s = (Inr RUnit, s\<lparr> owner := a \<rparr>)" unfolding T by (simp add: OwnerChange)
    with OwnerChange show ?thesis by (rule owner)
  qed
qed

subsection \<open>Evaluating the contract on concrete calls\<close>

lemmas contract_defs = createVote_def castVote_def revealVoteResults_def endVoteEarly_def
  storeVote_def emit_def transact_def constructor_def zeroVote_def choiceIndex_def bytes2_def
  uint16_def Let_def

section \<open>The reveal operation\<close>

text \<open>
  Claim C5. \<open>revealVoteResults\<close> fails with \<open>VoteNotFound\<close> when the poll is not
  active, with \<open>NotVoteCreator\<close> when the caller is neither the poll's creator nor the
  owner, with \<open>VoteNotExpired\<close> when the time is strictly before the deadline, with
  \<open>VoteAlreadyRevealed\<close> when the poll is already revealed, and with \<open>InvalidOption\<close>
  when the number of counts differs from the number of options, the first violated
  precondition in this order deciding the error. When all hold, the call succeeds, the
  tally is the supplied list of counts and \<open>isRevealed\<close> is set.
\<close>

theorem revealVoteResults_checks_and_effect:
  "fst (revealVoteResults e i cs s) =
     (if \<not> isActive (votes s i) then Inl VoteNotFound
      else if msg_sender e \<noteq> creator (votes s i) \<and> msg_sender e \<noteq> owner s then Inl NotVoteCreator
      else if block_timestamp e < deadline (votes s i) then Inl VoteNotExpired
      else if isRevealed (votes s i) then Inl VoteAlreadyRevealed
      else if length cs \<noteq> length (options (votes s i)) then Inl InvalidOption
      else Inr ())
   \<and> (fst (revealVoteResults e i cs s) = Inr () \<longrightarrow>
        revealedCounts (votes (snd (revealVoteResults e i cs s)) i) = cs
      \<and> isRevealed (votes (snd (revealVoteResults e i cs s)) i)
      \<and> transact e (RevealVoteResults i cs) s = (Inr RUnit, snd (revealVoteResults e i cs s)))"
  by (simp add: revealVoteResults_def storeVote_def emit_def Let_def transact_def)

theorem revealVoteResults_checks_and_effect_witness:
  "fst (revealVoteResults \<lparr>msg_sender = 1, block_timestamp = 4000\<rparr> 0 [3, 5]
      (run (constructor 1)
         [(\<lparr>msg_sender = 1, block_timestamp = 100\<rparr>, CreateVote ''T'' ''D'' [''A'', ''B''] 3700)])) = Inr ()
   \<and> revealedCounts (votes (snd (revealVoteResults \<lparr>msg_sender = 1, block_timestamp = 4000\<rparr> 0 [3, 5]
      (run (constructor 1)
         [(\<lparr>msg_sender = 1, block_timestamp = 100\<rparr>, CreateVote ''T'' ''D'' [''A'', ''B''] 3700)]))) 0) = [3, 5]"
proof -
  have h: "fst (revealVoteResults \<lparr>msg_sender = 1, block_timestamp = 4000\<rparr> 0 [3, 5]
      (run (constructor 1)
         [(\<lparr>msg_sender = 1, block_timestamp = 100\<rparr>, CreateVote ''T'' ''D'' [''A'', ''B''] 3700)])) = Inr ()"
    by (simp add: contract_defs)
  with revealVoteResults_checks_and_effect[of "\<lparr>msg_sender = 1, block_timestamp = 4000\<rparr>" 0 "[3, 5]"
      "run (constructor 1)
         [(\<lparr>msg_sender = 1, block_timestamp = 100\<rparr>, CreateVote ''T'' ''D'' [''A'', ''B''] 3700)]"]
  show ?thesis by blast
qed

section \<open>Failing calls\<close>

lemma named_fail_createVote:
  "fst (createVote e ttl descr opts dl s) = Inl err \<Longrightarrow> snd (createVote e ttl descr opts dl s) = s"
  by (simp add: createVote_def Let_def split: if_splits)

lemma named_fail_castVote:
  "fst (castVote e i p s) = Inl err \<Longrightarrow> named err \<Longrightarrow> snd (castVote e i p s) = s"
  by (auto simp add: castVote_def Let_def named_def split: if_splits)

lemma named_fail_revealVoteResults:
  "fst (revealVoteResults e i cs s) = Inl err \<Longrightarrow> snd (revealVoteResults e i cs s) = s"
  by (simp add: revealVoteResults_def Let_def split: if_splits)

lemma named_fail_endVoteEarly:
  "fst (endVoteEarly e i s) = Inl err \<Longrightarrow> snd (endVoteEarly e i s) = s"
  by (simp add: endVoteEarly_def split: if_splits)

lemma named_fail_exec:
  "fst (exec e c s) = Inl err \<Longrightarrow> named err \<Longrightarrow> snd (exec e c s) = s"
proof (cases c)
  case (CreateVote ttl descr opts dl)
  then show "fst (exec e c s) = Inl err \<Longrightarrow> ?thesis"
    by (cases "fst (createVote e ttl descr opts dl s)") (auto simp: named_fail_createVote)
next
  case (CastVote i p)
  then show "fst (exec e c s) = Inl err \<Longrightarrow> named err \<Longrightarrow> ?thesis"
    by (cases "fst (castVote e i p s)") (auto simp: named_fail_castVote)
next
  case (RevealVoteResults i cs)
  then show "fst (exec e c s) = Inl err \<Longrightarrow> ?thesis"
    by (cases "fst (revealVoteResults e i cs s)") (auto simp: named_fail_revealVoteResults)
next
  case (EndVoteEarly i)
  then show "fst (exec e c s) = Inl err \<Longrightarrow> ?thesis"
    by (cases "fst (endVoteEarly e i s)") (auto simp: named_fail_endVoteEarly)
next
  case (OwnerChange a)
  then show "fst (exec e c s) = Inl err \<Longrightarrow> ?thesis" by simp
qed

lemma castVote_hasVoted:
  "hasVoted (votes s i) (msg_sender e) \<Longrightarrow>
     fst (castVote e i p s) \<in> {Inl VoteNotFound, Inl VoteExpired, Inl AlreadyVoted}"
  by (simp add: castVote_def)

subsection \<open>The participation record of a run\<close>

text \<open>
  No call clears an entry of \<open>hasVoted\<close>, and only an accepted vote sets one: after a
  run, the principals recorded for a poll are those whose vote on it the run accepted.
\<close>

lemma hasVoted_transact:
  "hasVoted (votes (snd (transact e c s)) i) a \<longleftrightarrow>
     hasVoted (votes s i) a \<or> (isCastOn i c \<and> msg_sender e = a \<and> \<not> isl (fst (transact e c s)))"
proof (cases rule: transact_effect[of e c s])
  case (fail err)
  then show ?thesis by simp
next
  case (create ttl descr opts dl s')
  from createVote_Inr(7)[OF create(2)] show ?thesis using create(1,3) by simp
next
  case (cast j p s')
  from castVote_Inr(8)[OF cast(2)] show ?thesis using cast(1,3) by auto
next
  case (reveal j cs s')
  from revealVoteResults_Inr(6)[OF reveal(2)] show ?thesis using reveal(1,3) by simp
next
  case (endEarly j s')
  from endVoteEarly_Inr(3)[OF endEarly(2)] show ?thesis using endEarly(1,3) by simp
next
  case (owner b)
  then show ?thesis by simp
qed

lemma votedIn_Cons:
  "votedIn (x # l) i a \<longleftrightarrow>
     (isCastOn i (fst (snd x)) \<and> msg_sender (fst x) = a \<and> \<not> isl (snd (snd x))) \<or> votedIn l i a"
  by (simp add: votedIn_def)

lemma hasVoted_run:
  "hasVoted (votes (run s tr) i) a \<longleftrightarrow> hasVoted (votes s i) a \<or> votedIn (outcomes s tr) i a"
proof (induction tr arbitrary: s)
  case Nil
  then show ?case by (simp add: votedIn_def)
next
  case (Cons ec tr)
  show ?case
    using Cons.IH[of "snd (transact (fst ec) (snd ec) s)"]
      hasVoted_transact[of "fst ec" "snd ec" s i a]
    by (auto simp add: votedIn_Cons)
qed

lemma hasVoted_reachable:
  "hasVoted (votes (run (constructor d) tr) i) a \<longleftrightarrow> votedIn (outcomes (constructor d) tr) i a"
  using hasVoted_run[of "constructor d" tr i a] by (simp add: constructor_def zeroVote_def)

lemma voted_poll_active:
  assumes "hasVoted (votes (run (constructor d) tr) i) a"
  shows "isActive (votes (run (constructor d) tr) i)"
proof -
  have "inv (run (constructor d) tr)" by (simp add: inv_run inv_constructor)
  then have w: "wf_poll (run (constructor d) tr) i" by (simp add: inv_def)
  have "votes (run (constructor d) tr) i \<noteq> zeroVote" using assms by (auto simp: zeroVote_def)
  with w show ?thesis by (auto simp: wf_poll_def)
qed

lemma second_vote_rejected:
  assumes "votedIn (outcomes (constructor d) tr) i (msg_sender e)"
  shows "castVote e i p (run (constructor d) tr) =
           (if deadline (votes (run (constructor d) tr) i) \<le> block_timestamp e
            then Inl VoteExpired else Inl AlreadyVoted, run (constructor d) tr)"
proof -
  from assms have h: "hasVoted (votes (run (constructor d) tr) i) (msg_sender e)"
    by (simp add: hasVoted_reachable)
  then have "isActive (votes (run (constructor d) tr) i)" by (rule voted_poll_active)
  with h show ?thesis by (simp add: castVote_def)
qed

text \<open>
  Claim C7. A failing call leaves the storage as it was: the transaction is rolled back,
  and an error the contract declares is raised while the storage is still untouched (only
  the panic of a checked operation can come after a write). In particular a vote from a
  principal already recorded in \<open>hasVoted\<close> is rejected and changes nothing, the
  tally and \<open>totalVoters\<close> included; and after any run from deployment the principals
  recorded for a poll are exactly those whose vote on it the run accepted, so a second
  vote of a principal on a poll is rejected (with \<open>VoteExpired\<close> once the deadline has
  come, else with \<open>AlreadyVoted\<close>) and leaves the storage, with the poll's tally and
  \<open>totalVoters\<close>, as it was.
\<close>

theorem failing_call_changes_nothing:
  "(fst (exec e c s) = Inl err \<longrightarrow>
      transact e c s = (Inl err, s) \<and> (named err \<longrightarrow> snd (exec e c s) = s))
   \<and> (hasVoted (votes s i) (msg_sender e) \<longrightarrow>
        fst (castVote e i p s) \<in> {Inl VoteNotFound, Inl VoteExpired, Inl AlreadyVoted}
      \<and> snd (castVote e i p s) = s
      \<and> snd (transact e (CastVote i p) s) = s)
   \<and> (hasVoted (votes (run (constructor d) tr) j) a \<longleftrightarrow> votedIn (outcomes (constructor d) tr) j a)
   \<and> (votedIn (outcomes (constructor d) tr) j (msg_sender e2) \<longrightarrow>
        castVote e2 j p2 (run (constructor d) tr) =
          (if deadline (votes (run (constructor d) tr) j) \<le> block_timestamp e2
           then Inl VoteExpired else Inl AlreadyVoted, run (constructor d) tr)
      \<and> transact e2 (CastVote j p2) (run (constructor d) tr) =
          (if deadline (votes (run (constructor d) tr) j) \<le> block_timestamp e2
           then Inl VoteExpired else Inl AlreadyVoted, run (constructor d) tr)
      \<and> run (constructor d) (tr @ [(e2, CastVote j p2)]) = run (constructor d) tr
      \<and> revealedCounts (votes (run (constructor d) (tr @ [(e2, CastVote j p2)])) j)
          = revealedCounts (votes (run (constructor d) tr) j)
      \<and> totalVoters (votes (run (constructor d) (tr @ [(e2, CastVote j p2)])) j)
          = totalVoters (votes (run (constructor d) tr) j))"
proof (intro conjI impI)
  assume "fst (exec e c s) = Inl err"
  then show "transact e c s = (Inl err, s)" by (rule transact_Inl)
next
  assume "fst (exec e c s) = Inl err" "named err"
  then show "snd (exec e c s) = s" by (rule named_fail_exec)
next
  assume h: "hasVoted (votes s i) (msg_sender e)"
  then show "fst (castVote e i p s) \<in> {Inl VoteNotFound, Inl VoteExpired, Inl AlreadyVoted}"
    by (rule castVote_hasVoted)
  from h show "snd (castVote e i p s) = s" by (simp add: castVote_def)
  from h show "snd (transact e (CastVote i p) s) = s" by (simp add: castVote_def transact_def)
next
  show "hasVoted (votes (run (constructor d) tr) j) a \<longleftrightarrow> votedIn (outcomes (constructor d) tr) j a"
    by (rule hasVoted_reachable)
next
  let ?s = "run (constructor d) tr"
  assume v: "votedIn (outcomes (constructor d) tr) j (msg_sender e2)"
  note C = second_vote_rejected[OF v, of p2]
  show "castVote e2 j p2 ?s =
          (if deadline (votes ?s j) \<le> block_timestamp e2 then Inl VoteExpired else Inl AlreadyVoted, ?s)"
    by (rule C)
  show T: "transact e2 (CastVote j p2) ?s =
          (if deadline (votes ?s j) \<le> block_timestamp e2 then Inl VoteExpired else Inl AlreadyVoted, ?s)"
    by (simp add: transact_def C)
  have A: "run (constructor d) (tr @ [(e2, CastVote j p2)]) = snd (transact e2 (CastVote j p2) ?s)"
    by (rule run_snoc)
  show R: "run (constructor d) (tr @ [(e2, CastVote j p2)]) = ?s" by (simp add: A T)
  show "revealedCounts (votes (run (constructor d) (tr @ [(e2, CastVote j p2)])) j)
          = revealedCounts (votes ?s j)" by (simp add: R)
  show "totalVoters (votes (run (constructor d) (tr @ [(e2, CastVote j p2)])) j)
          = totalVoters (votes ?s j)" by (simp add: R)
qed

theorem failing_call_changes_nothing_witness:
  "fst (exec \<lparr>msg_sender = 7, block_timestamp = 102\<rparr> (CastVote 0 [0, 0]) (run (constructor 1) demo))
     = Inl AlreadyVoted
   \<and> named AlreadyVoted
   \<and> hasVoted (votes (run (constructor 1) demo) 0) (msg_sender \<lparr>msg_sender = 7, block_timestamp = 102\<rparr>)
   \<and> votedIn (outcomes (constructor 1) demo) 0 (msg_sender \<lparr>msg_sender = 7, block_timestamp = 102\<rparr>)
   \<and> snd (exec \<lparr>msg_sender = 7, block_timestamp = 102\<rparr> (CastVote 0 [0, 0]) (run (constructor 1) demo))
       = run (constructor 1) demo
   \<and> transact \<lparr>msg_sender = 7, block_timestamp = 102\<rparr> (CastVote 0 [0, 0]) (run (constructor 1) demo)
       = (Inl AlreadyVoted, run (constructor 1) demo)
   \<and> revealedCounts (votes (run (constructor 1)
         (demo @ [(\<lparr>msg_sender = 7, block_timestamp = 102\<rparr>, CastVote 0 [0, 0])])) 0) = [0, 1]
   \<and> totalVoters (votes (run (constructor 1)
         (demo @ [(\<lparr>msg_sender = 7, block_timestamp = 102\<rparr>, CastVote 0 [0, 0])])) 0) = 1"
proof -
  let ?s = "run (constructor 1) demo"
  let ?e = "\<lparr>msg_sender = 7, block_timestamp = 102\<rparr>"
  have a: "fst (exec ?e (CastVote 0 [0, 0]) ?s) = Inl AlreadyVoted"
    by (simp add: demo_def contract_defs)
  have b: "named AlreadyVoted" by (simp add: named_def)
  have c: "hasVoted (votes ?s 0) (msg_sender ?e)" by (simp add: demo_def contract_defs)
  have v: "votedIn (outcomes (constructor 1) demo) 0 (msg_sender ?e)"
    by (simp add: demo_def votedIn_def contract_defs)
  have k: "deadline (votes ?s 0) = 3700" "revealedCounts (votes ?s 0) = [0, 1]"
    "totalVoters (votes ?s 0) = 1"
    by (simp_all add: demo_def contract_defs)
  note F = failing_call_changes_nothing[of ?e "CastVote 0 [0, 0]" ?s AlreadyVoted 0 "[0, 0]"
      1 demo 0 7 ?e "[0, 0]"]
  from F a b have f1: "snd (exec ?e (CastVote 0 [0, 0]) ?s) = ?s" by blast
  from F v have f2: "transact ?e (CastVote 0 [0, 0]) ?s =
      (if deadline (votes ?s 0) \<le> block_timestamp ?e then Inl VoteExpired else Inl AlreadyVoted, ?s)"
    and f3: "revealedCounts (votes (run (constructor 1) (demo @ [(?e, CastVote 0 [0, 0])])) 0)
          = revealedCounts (votes ?s 0)"
    and f4: "totalVoters (votes (run (constructor 1) (demo @ [(?e, CastVote 0 [0, 0])])) 0)
          = totalVoters (votes ?s 0)"
    by blast+
  from f2 have f2': "transact ?e (CastVote 0 [0, 0]) ?s = (Inl AlreadyVoted, ?s)"
    by (simp add: k)
  from a b c v f1 f2' f3 f4 show ?thesis by (simp add: k)
qed

section \<open>The tally has one entry per option\<close>

text \<open>
  Claim C8. The tally of every poll has as many entries as the poll has options: at
  deployment, after any call made in a state where it holds, and so in every state a run
  of calls can reach.
\<close>

theorem revealedCounts_length_is_options_length:
  "(\<forall>i. length (revealedCounts (votes (constructor d) i)) = length (options (votes (constructor d) i)))
   \<and> ((\<forall>i. length (revealedCounts (votes s i)) = length (options (votes s i))) \<longrightarrow>
        (\<forall>i. length (revealedCounts (votes (snd (transact e c s)) i))
              = length (options (votes (snd (transact e c s)) i))))
   \<and> (\<forall>i. length (revealedCounts (votes (run (constructor d) tr) i))
           = length (options (votes (run (constructor d) tr) i)))"
proof (intro conjI impI allI)
  fix i
  show "length (revealedCounts (votes (constructor d) i)) = length (options (votes (constructor d) i))"
    by (simp add: constructor_def zeroVote_def)
  have "inv (run (constructor d) tr)" by (simp add: inv_run inv_constructor)
  then show "length (revealedCounts (votes (run (constructor d) tr) i))
           = length (options (votes (run (constructor d) tr) i))"
    by (simp add: inv_def wf_poll_def)
next
  fix i
  assume A: "\<forall>i. length (revealedCounts (votes s i)) = length (options (votes s i))"
  show "length (revealedCounts (votes (snd (transact e c s)) i))
              = length (options (votes (snd (transact e c s)) i))"
  proof (cases "fst (exec e c s)")
    case (Inl err)
    then show ?thesis using A by (simp add: transact_Inl)
  next
    case (Inr r)
    then have T: "transact e c s = exec e c s" by (rule transact_Inr)
    show ?thesis
    proof (cases c)
      case (CreateVote ttl descr opts dl)
      with Inr obtain v where "createVote e ttl descr opts dl s = (Inr v, snd (exec e c s))"
        by (cases "createVote e ttl descr opts dl s"; cases "fst (createVote e ttl descr opts dl s)") auto
      from createVote_Inr(7)[OF this] show ?thesis using A by (simp add: T)
    next
      case (CastVote j p)
      with Inr obtain v where "castVote e j p s = (Inr v, snd (exec e c s))"
        by (cases "castVote e j p s"; cases "fst (castVote e j p s)") auto
      from castVote_Inr(8)[OF this] show ?thesis using A by (simp add: T)
    next
      case (RevealVoteResults j cs)
      with Inr obtain v where R: "revealVoteResults e j cs s = (Inr v, snd (exec e c s))"
        by (cases "revealVoteResults e j cs s"; cases "fst (revealVoteResults e j cs s)") auto
      from revealVoteResults_Inr(5,6)[OF R] show ?thesis using A by (simp add: T)
    next
      case (EndVoteEarly j)
      with Inr obtain v where "endVoteEarly e j s = (Inr v, snd (exec e c s))"
        by (cases "endVoteEarly e j s"; cases "fst (endVoteEarly e j s)") auto
      from endVoteEarly_Inr(3)[OF this] show ?thesis using A by (simp add: T)
    next
      case (OwnerChange a)
      then show ?thesis using A by (simp add: transact_def)
    qed
  qed
qed

theorem revealedCounts_length_is_options_length_witness:
  "(\<forall>i. length (revealedCounts (votes (constructor 1) i)) = length (options (votes (constructor 1) i)))
   \<and> (\<forall>i. length (revealedCounts (votes (snd (transact \<lparr>msg_sender = 1, block_timestamp = 100\<rparr>
              (CreateVote ''T'' ''D'' [''A'', ''B''] 3700) (constructor 1))) i))
          = length (options (votes (snd (transact \<lparr>msg_sender = 1, block_timestamp = 100\<rparr>
              (CreateVote ''T'' ''D'' [''A'', ''B''] 3700) (constructor 1))) i)))
   \<and> revealedCounts (votes (snd (transact \<lparr>msg_sender = 1, block_timestamp = 100\<rparr>
              (CreateVote ''T'' ''D'' [''A'', ''B''] 3700) (constructor 1))) 0) = [0, 0]"
proof -
  have h: "\<forall>i. length (revealedCounts (votes (constructor 1) i)) = length (options (votes (constructor 1) i))"
    by (simp add: contract_defs)
  have k: "revealedCounts (votes (snd (transact \<lparr>msg_sender = 1, block_timestamp = 100\<rparr>
              (CreateVote ''T'' ''D'' [''A'', ''B''] 3700) (constructor 1))) 0) = [0, 0]"
    by (simp add: contract_defs)
  from h k revealedCounts_length_is_options_length[of 1 "constructor 1"
      "\<lparr>msg_sender = 1, block_timestamp = 100\<rparr>" "CreateVote ''T'' ''D'' [''A'', ''B''] 3700" "[]"]
  show ?thesis by blast
qed

section \<open>Poll ids\<close>

lemma createdIds_Cons:
  "createdIds ((e, c, r) # l) = (case r of Inr (RId i) \<Rightarrow> i # createdIds l | _ \<Rightarrow> createdIds l)"
  by (cases r; simp split: retval.splits) 

lemma exec_RId:
  assumes "fst (exec e c s) = Inr (RId v)"
  shows "v = nextVoteId s \<and> nextVoteId s \<noteq> - 1 \<and> nextVoteId (snd (exec e c s)) = nextVoteId s + 1
         \<and> (\<exists>ttl descr opts dl. c = CreateVote ttl descr opts dl)"
proof (cases c)
  case (CreateVote ttl descr opts dl)
  with assms obtain s' where "createVote e ttl descr opts dl s = (Inr v, s')"
    by (cases "createVote e ttl descr opts dl s"; cases "fst (createVote e ttl descr opts dl s)") auto
  from createVote_Inr[OF this] this show ?thesis using CreateVote by simp
next
  case (CastVote i p)
  then show ?thesis using assms by (cases "fst (castVote e i p s)") auto
next
  case (RevealVoteResults i cs)
  then show ?thesis using assms by (cases "fst (revealVoteResults e i cs s)") auto
next
  case (EndVoteEarly i)
  then show ?thesis using assms by (cases "fst (endVoteEarly e i s)") auto
next
  case (OwnerChange a)
  then show ?thesis using assms by simp
qed

lemma exec_RUnit:
  assumes "fst (exec e c s) = Inr RUnit"
  shows "nextVoteId (snd (exec e c s)) = nextVoteId s"
proof (cases c)
  case (CreateVote ttl descr opts dl)
  then show ?thesis using assms by (cases "fst (createVote e ttl descr opts dl s)") auto
next
  case (CastVote i p)
  with assms obtain u where "castVote e i p s = (Inr u, snd (exec e c s))"
    by (cases "castVote e i p s"; cases "fst (castVote e i p s)") auto
  from castVote_Inr(8)[OF this] show ?thesis by simp
next
  case (RevealVoteResults i cs)
  with assms obtain u where "revealVoteResults e i cs s = (Inr u, snd (exec e c s))"
    by (cases "revealVoteResults e i cs s"; cases "fst (revealVoteResults e i cs s)") auto
  from revealVoteResults_Inr(6)[OF this] show ?thesis by simp
next
  case (EndVoteEarly i)
  with assms obtain u where "endVoteEarly e i s = (Inr u, snd (exec e c s))"
    by (cases "endVoteEarly e i s"; cases "fst (endVoteEarly e i s)") auto
  from endVoteEarly_Inr(3)[OF this] show ?thesis by simp
next
  case (OwnerChange a)
  then show ?thesis by simp
qed

lemma transact_cases:
  obtains (fail) err where "transact e c s = (Inl err, s)" "fst (exec e c s) = Inl err"
  | (created) "transact e c s = (Inr (RId (nextVoteId s)), snd (exec e c s))"
      "fst (exec e c s) = Inr (RId (nextVoteId s))"
      "nextVoteId s \<noteq> - 1" "nextVoteId (snd (exec e c s)) = nextVoteId s + 1"
  | (other) "transact e c s = (Inr RUnit, snd (exec e c s))" "fst (exec e c s) = Inr RUnit"
      "nextVoteId (snd (exec e c s)) = nextVoteId s"
proof (cases "fst (exec e c s)")
  case (Inl err)
  then show ?thesis using fail transact_Inl by blast
next
  case (Inr r)
  note T = transact_Inr[OF Inr]
  show ?thesis
  proof (cases r)
    case (RId v)
    with Inr exec_RId[of e c s v] have "v = nextVoteId s" "nextVoteId s \<noteq> - 1"
      "nextVoteId (snd (exec e c s)) = nextVoteId s + 1" by auto
    then show ?thesis using created T Inr RId by (metis prod.collapse)
  next
    case RUnit
    with Inr exec_RUnit[of e c s] show ?thesis using other T by (metis prod.collapse)
  qed
qed

lemma created_count:
  "unat (nextVoteId (run s tr)) = unat (nextVoteId s) + length (createdIds (outcomes s tr))
   \<and> map unat (createdIds (outcomes s tr))
       = [unat (nextVoteId s) ..< unat (nextVoteId s) + length (createdIds (outcomes s tr))]"
proof (induction tr arbitrary: s)
  case Nil
  then show ?case by simp
next
  case (Cons ec tr)
  show ?case
  proof (cases rule: transact_cases[of "fst ec" "snd ec" s])
    case (fail err)
    then show ?thesis using Cons.IH[of s] by (simp add: createdIds_Cons)
  next
    case created
    let ?l = "createdIds (outcomes (snd (exec (fst ec) (snd ec) s)) tr)"
    let ?n = "unat (nextVoteId s)"
    from created Cons.IH[of "snd (exec (fst ec) (snd ec) s)"]
    have a: "unat (nextVoteId (run (snd (exec (fst ec) (snd ec) s)) tr)) = Suc ?n + length ?l"
      and b: "map unat ?l = [Suc ?n ..< Suc ?n + length ?l]"
      by (simp_all add: unat_succ)
    have b': "map unat ?l = [Suc ?n ..< Suc (?n + length ?l)]"
      using b by (simp only: add_Suc)
    have c: "[?n ..< Suc (?n + length ?l)] = ?n # [Suc ?n ..< Suc (?n + length ?l)]"
      by (rule upt_conv_Cons) simp
    have d: "createdIds (outcomes s (ec # tr)) = nextVoteId s # ?l"
      using created by (simp add: createdIds_Cons)
    have e: "run s (ec # tr) = run (snd (exec (fst ec) (snd ec) s)) tr"
      using created by simp
    have f: "map unat (nextVoteId s # ?l) = [?n ..< ?n + length (nextVoteId s # ?l)]"
      by (simp only: list.map length_Cons add_Suc_right b' c)
    show ?thesis unfolding d e using a f by simp
  next
    case other
    then show ?thesis using Cons.IH[of "snd (exec (fst ec) (snd ec) s)"]
      by (simp add: createdIds_Cons)
  qed
qed

lemma allocated_ids:
  "{i. i < nextVoteId (run s tr)} = {i. i < nextVoteId s} \<union> set (createdIds (outcomes s tr))"
proof (induction tr arbitrary: s)
  case Nil
  then show ?case by simp
next
  case (Cons ec tr)
  show ?case
  proof (cases rule: transact_cases[of "fst ec" "snd ec" s])
    case (fail err)
    then show ?thesis using Cons.IH[of s] by (simp add: createdIds_Cons)
  next
    case created
    then show ?thesis using Cons.IH[of "snd (exec (fst ec) (snd ec) s)"]
      by (auto simp add: createdIds_Cons word_less_succ)
  next
    case other
    then show ?thesis using Cons.IH[of "snd (exec (fst ec) (snd ec) s)"]
      by (simp add: createdIds_Cons)
  qed
qed

text \<open>
  Claim C6. The ids returned by the successful creations of a run are 0, 1, 2, ... in
  this order, so each is the number of polls created before it, none is skipped and none
  is returned twice; \<open>getTotalVotes\<close> returns the number of polls created so far, and
  the next successful creation returns that number.
\<close>

theorem poll_ids_are_sequential:
  "map unat (createdIds (outcomes (constructor d) tr)) = [0 ..< length (createdIds (outcomes (constructor d) tr))]
   \<and> getTotalVotes (run (constructor d) tr) = Inr (of_nat (length (createdIds (outcomes (constructor d) tr))))
   \<and> length (createdIds (outcomes (constructor d) tr)) < 2 ^ 256
   \<and> (fst (transact e (CreateVote ttl descr opts dl) (run (constructor d) tr)) = Inr r \<longrightarrow>
        r = RId (of_nat (length (createdIds (outcomes (constructor d) tr)))))"
proof -
  let ?n = "length (createdIds (outcomes (constructor d) tr))"
  have z: "unat (nextVoteId (constructor d)) = 0" by (simp add: constructor_def)
  from created_count[of "constructor d" tr] z
  have a: "unat (nextVoteId (run (constructor d) tr)) = ?n"
    and b: "map unat (createdIds (outcomes (constructor d) tr)) = [0 ..< ?n]" by simp_all
  from a have c: "nextVoteId (run (constructor d) tr) = of_nat ?n" by (metis of_nat_unat ucast_id)
  have "unat (nextVoteId (run (constructor d) tr)) < 2 ^ LENGTH(256)" by (rule unsigned_less)
  then have lt: "?n < 2 ^ 256" using a by simp
  have r: "r = RId (of_nat ?n)"
    if "fst (transact e (CreateVote ttl descr opts dl) (run (constructor d) tr)) = Inr r"
  proof (cases rule: transact_cases[of e "CreateVote ttl descr opts dl" "run (constructor d) tr"])
    case (fail err)
    then show ?thesis using that by simp
  next
    case created
    then show ?thesis using that c by simp
  next
    case other
    then show ?thesis by (cases "fst (createVote e ttl descr opts dl (run (constructor d) tr))") auto
  qed
  show ?thesis using b c lt r by (simp add: getTotalVotes_def)
qed

theorem poll_ids_are_sequential_witness:
  "fst (transact \<lparr>msg_sender = 2, block_timestamp = 200\<rparr> (CreateVote ''U'' [] [''X''] 900)
      (run (constructor 1)
        [(\<lparr>msg_sender = 1, block_timestamp = 100\<rparr>, CreateVote ''T'' ''D'' [''A'', ''B''] 3700)]))
     = Inr (RId 1)
   \<and> RId 1 = RId (of_nat (length (createdIds (outcomes (constructor 1)
        [(\<lparr>msg_sender = 1, block_timestamp = 100\<rparr>, CreateVote ''T'' ''D'' [''A'', ''B''] 3700)]))))"
proof -
  let ?tr = "[(\<lparr>msg_sender = 1, block_timestamp = 100\<rparr>, CreateVote ''T'' ''D'' [''A'', ''B''] 3700)]"
  have h: "fst (transact \<lparr>msg_sender = 2, block_timestamp = 200\<rparr> (CreateVote ''U'' [] [''X''] 900)
      (run (constructor 1) ?tr)) = Inr (RId 1)"
    by (simp add: contract_defs)
  from h poll_ids_are_sequential[of 1 ?tr "\<lparr>msg_sender = 2, block_timestamp = 200\<rparr>"
      "''U''" "[]" "[''X'']" 900 "RId 1"]
  show ?thesis by blast
qed

text \<open>
  Claim C10. For a poll id that no creation of the run has returned, the two reads do not
  fail: \<open>isVoteExpired\<close> returns true at every time and \<open>hasAddressVoted\<close> returns
  false for every address, the slot still holding the zero value.
\<close>

theorem unallocated_reads_return_defaults:
  assumes "i \<notin> set (createdIds (outcomes (constructor d) tr))"
  shows "isVoteExpired e i (run (constructor d) tr) = Inr True
       \<and> hasAddressVoted i a (run (constructor d) tr) = Inr False
       \<and> votes (run (constructor d) tr) i = zeroVote"
proof -
  have "inv (run (constructor d) tr)" by (simp add: inv_run inv_constructor)
  then have w: "wf_poll (run (constructor d) tr) i" by (simp add: inv_def)
  have "\<not> i < nextVoteId (run (constructor d) tr)"
    using allocated_ids[of "constructor d" tr] assms by (auto simp: constructor_def)
  with w have "votes (run (constructor d) tr) i = zeroVote" by (simp add: wf_poll_def)
  then show ?thesis by (simp add: isVoteExpired_def hasAddressVoted_def zeroVote_def)
qed


theorem unallocated_reads_return_defaults_witness:
  "5 \<notin> set (createdIds (outcomes (constructor 1)
        [(\<lparr>msg_sender = 1, block_timestamp = 100\<rparr>, CreateVote ''T'' ''D'' [''A'', ''B''] 3700)]))
   \<and> isVoteExpired \<lparr>msg_sender = 2, block_timestamp = 0\<rparr> 5 (run (constructor 1)
        [(\<lparr>msg_sender = 1, block_timestamp = 100\<rparr>, CreateVote ''T'' ''D'' [''A'', ''B''] 3700)]) = Inr True
   \<and> hasAddressVoted 5 1 (run (constructor 1)
        [(\<lparr>msg_sender = 1, block_timestamp = 100\<rparr>, CreateVote ''T'' ''D'' [''A'', ''B''] 3700)]) = Inr False"
proof -
  let ?tr = "[(\<lparr>msg_sender = 1, block_timestamp = 100\<rparr>, CreateVote ''T'' ''D'' [''A'', ''B''] 3700)]"
  have h: "5 \<notin> set (createdIds (outcomes (constructor 1) ?tr))"
    by (simp add: contract_defs)
  from h unallocated_reads_return_defaults[OF h, of "\<lparr>msg_sender = 2, block_timestamp = 0\<rparr>" 1]
  show ?thesis by blast
qed

section \<open>Tallies and participation\<close>

lemma flag_transact:
  "voteRevealRequested (snd (transact e c s)) i \<longleftrightarrow>
     voteRevealRequested s i \<or> (isRevealOf i c \<and> \<not> isl (fst (transact e c s)))"
proof (cases rule: transact_effect[of e c s])
  case (fail err)
  then show ?thesis by simp
next
  case (create ttl descr opts dl s')
  from createVote_Inr(7)[OF create(2)] show ?thesis using create(1,3) by simp
next
  case (cast j p s')
  from castVote_Inr(8)[OF cast(2)] show ?thesis using cast(1,3) by simp
next
  case (reveal j cs s')
  from revealVoteResults_Inr(6)[OF reveal(2)] show ?thesis using reveal(1,3) by auto
next
  case (endEarly j s')
  from endVoteEarly_Inr(3)[OF endEarly(2)] show ?thesis using endEarly(1,3) by simp
next
  case (owner a)
  then show ?thesis by simp
qed

lemma revealedIn_Cons:
  "revealedIn (x # l) i \<longleftrightarrow> (isRevealOf i (fst (snd x)) \<and> \<not> isl (snd (snd x))) \<or> revealedIn l i"
  by (simp add: revealedIn_def)

lemma flag_run:
  "voteRevealRequested (run s tr) i \<longleftrightarrow> voteRevealRequested s i \<or> revealedIn (outcomes s tr) i"
proof (induction tr arbitrary: s)
  case Nil
  then show ?case by (simp add: revealedIn_def)
next
  case (Cons ec tr)
  show ?case
    using Cons.IH[of "snd (transact (fst ec) (snd ec) s)"] flag_transact[of "fst ec" "snd ec" s i]
    by (auto simp add: revealedIn_Cons)
qed

lemma total_transact:
  assumes "inv s"
  shows "unat (totalVoters (votes (snd (transact e c s)) i))
       = unat (totalVoters (votes s i)) + (if isCastOn i c \<and> \<not> isl (fst (transact e c s)) then 1 else 0)"
proof (cases rule: transact_effect[of e c s])
  case (fail err)
  then show ?thesis by simp
next
  case (create ttl descr opts dl s')
  have "votes s (nextVoteId s) = zeroVote" using assms by (auto simp: inv_def wf_poll_def)
  then have "totalVoters (votes s (nextVoteId s)) = 0" by (simp add: zeroVote_def)
  with createVote_Inr(7)[OF create(2)] show ?thesis using create(1,3) by simp
next
  case (cast j p s')
  from castVote_Inr(4,8)[OF cast(2)] show ?thesis using cast(1,3) by (auto simp: unat_succ)
next
  case (reveal j cs s')
  from revealVoteResults_Inr(6)[OF reveal(2)] show ?thesis using reveal(1,3) by auto
next
  case (endEarly j s')
  from endVoteEarly_Inr(3)[OF endEarly(2)] show ?thesis using endEarly(1,3) by simp
next
  case (owner a)
  then show ?thesis by simp
qed

lemma votesCastOn_Cons:
  "votesCastOn (x # l) i = (if isCastOn i (fst (snd x)) \<and> \<not> isl (snd (snd x)) then 1 else 0) + votesCastOn l i"
  by (simp add: votesCastOn_def)

lemma total_run:
  "inv s \<Longrightarrow> unat (totalVoters (votes (run s tr) i))
      = unat (totalVoters (votes s i)) + votesCastOn (outcomes s tr) i"
proof (induction tr arbitrary: s)
  case Nil
  then show ?case by (simp add: votesCastOn_def)
next
  case (Cons ec tr)
  from Cons.prems have "inv (snd (transact (fst ec) (snd ec) s))" by (rule inv_transact)
  from Cons.IH[OF this] total_transact[OF Cons.prems, of "fst ec" "snd ec" i]
  show ?case by (simp add: votesCastOn_Cons)
qed

text \<open>
  Claim C2. After any run of calls in which no \<open>revealVoteResults\<close> on the poll
  succeeded, the entries of the poll's tally add up (as numbers, without wrap-around) to
  its \<open>totalVoters\<close>, which is the number of votes the run cast on it.
\<close>

theorem tally_sums_to_totalVoters:
  assumes "\<not> revealedIn (outcomes (constructor d) tr) i"
  shows "sum_list (map unat (revealedCounts (votes (run (constructor d) tr) i)))
           = unat (totalVoters (votes (run (constructor d) tr) i))
       \<and> unat (totalVoters (votes (run (constructor d) tr) i)) = votesCastOn (outcomes (constructor d) tr) i"
proof -
  have "inv (run (constructor d) tr)" by (simp add: inv_run inv_constructor)
  then have w: "wf_poll (run (constructor d) tr) i" by (simp add: inv_def)
  have "\<not> voteRevealRequested (run (constructor d) tr) i"
    using assms flag_run[of "constructor d" tr i] by (simp add: constructor_def)
  with w have "sum_list (map unat (revealedCounts (votes (run (constructor d) tr) i)))
           = unat (totalVoters (votes (run (constructor d) tr) i))" by (simp add: wf_poll_def)
  moreover have "unat (totalVoters (votes (run (constructor d) tr) i)) = votesCastOn (outcomes (constructor d) tr) i"
    using total_run[OF inv_constructor, of d tr i] by (simp add: constructor_def zeroVote_def)
  ultimately show ?thesis by simp
qed

theorem tally_sums_to_totalVoters_witness:
  "\<not> revealedIn (outcomes (constructor 1) demo) 0
   \<and> revealedCounts (votes (run (constructor 1) demo) 0) = [0, 1]
   \<and> sum_list (map unat (revealedCounts (votes (run (constructor 1) demo) 0))) = 1
   \<and> totalVoters (votes (run (constructor 1) demo) 0) = 1"
proof -
  have h: "\<not> revealedIn (outcomes (constructor 1) demo) 0"
    by (simp add: demo_def revealedIn_def)
  have k: "revealedCounts (votes (run (constructor 1) demo) 0) = [0, 1]"
    "totalVoters (votes (run (constructor 1) demo) 0) = 1"
    by (simp_all add: demo_def contract_defs)
  from tally_sums_to_totalVoters[OF h] h k show ?thesis by simp
qed

text \<open>
  Claim C9, as amended. In every reachable state a poll that is not revealed has no
  voters, and \<open>totalVoters\<close> is the number of votes cast on the poll; so
  \<open>revealVoteResults\<close> succeeds only on a poll on which no vote was cast, and on a
  poll with at least one vote it always fails: with \<open>NotVoteCreator\<close> for a caller
  who is neither creator nor owner, else with \<open>VoteNotExpired\<close> before the deadline,
  else with \<open>VoteAlreadyRevealed\<close>.
\<close>

theorem reveal_only_before_any_vote:
  "(\<not> isRevealed (votes (run (constructor d) tr) i) \<longrightarrow> totalVoters (votes (run (constructor d) tr) i) = 0)
   \<and> unat (totalVoters (votes (run (constructor d) tr) i)) = votesCastOn (outcomes (constructor d) tr) i
   \<and> (fst (revealVoteResults e i cs (run (constructor d) tr)) = Inr () \<longrightarrow>
        votesCastOn (outcomes (constructor d) tr) i = 0)
   \<and> (0 < votesCastOn (outcomes (constructor d) tr) i \<longrightarrow>
        fst (revealVoteResults e i cs (run (constructor d) tr)) =
          (if msg_sender e \<noteq> creator (votes (run (constructor d) tr) i)
               \<and> msg_sender e \<noteq> owner (run (constructor d) tr) then Inl NotVoteCreator
           else if block_timestamp e < deadline (votes (run (constructor d) tr) i) then Inl VoteNotExpired
           else Inl VoteAlreadyRevealed))"
proof -
  let ?s = "run (constructor d) tr"
  have "inv ?s" by (simp add: inv_run inv_constructor)
  then have w: "wf_poll ?s i" by (simp add: inv_def)
  have a: "\<not> isRevealed (votes ?s i) \<longrightarrow> totalVoters (votes ?s i) = 0"
    using w by (simp add: wf_poll_def)
  have b: "unat (totalVoters (votes ?s i)) = votesCastOn (outcomes (constructor d) tr) i"
    using total_run[OF inv_constructor, of d tr i] by (simp add: constructor_def zeroVote_def)
  have c: "isRevealed (votes ?s i) \<and> isActive (votes ?s i)"
    if "0 < votesCastOn (outcomes (constructor d) tr) i"
  proof -
    from that b have nz: "totalVoters (votes ?s i) \<noteq> 0" by (auto simp: unat_eq_0)
    with a have "isRevealed (votes ?s i)" by blast
    moreover have "votes ?s i \<noteq> zeroVote" using nz by (auto simp: zeroVote_def)
    with w have "isActive (votes ?s i)" by (auto simp: wf_poll_def)
    ultimately show ?thesis by simp
  qed
  have d: "votesCastOn (outcomes (constructor d) tr) i = 0"
    if "fst (revealVoteResults e i cs ?s) = Inr ()"
  proof (rule ccontr)
    assume "votesCastOn (outcomes (constructor d) tr) i \<noteq> 0"
    then have "isRevealed (votes ?s i)" using c by simp
    then show False using that by (simp add: revealVoteResults_def split: if_splits)
  qed
  have e: "fst (revealVoteResults e i cs ?s) =
          (if msg_sender e \<noteq> creator (votes ?s i) \<and> msg_sender e \<noteq> owner ?s then Inl NotVoteCreator
           else if block_timestamp e < deadline (votes ?s i) then Inl VoteNotExpired
           else Inl VoteAlreadyRevealed)"
    if "0 < votesCastOn (outcomes (constructor d) tr) i"
    using c[OF that] by (simp add: revealVoteResults_def)
  from a b d e show ?thesis by blast
qed

theorem reveal_only_before_any_vote_witness:
  "0 < votesCastOn (outcomes (constructor 1) demo) 0
   \<and> fst (revealVoteResults \<lparr>msg_sender = 1, block_timestamp = 4000\<rparr> 0 [5, 5] (run (constructor 1) demo))
       = Inl VoteAlreadyRevealed
   \<and> \<not> isRevealed (votes (run (constructor 1) (take 1 demo)) 0)
   \<and> totalVoters (votes (run (constructor 1) (take 1 demo)) 0) = 0
   \<and> fst (revealVoteResults \<lparr>msg_sender = 1, block_timestamp = 4000\<rparr> 0 [5, 5]
          (run (constructor 1) (take 1 demo))) = Inr ()
   \<and> votesCastOn (outcomes (constructor 1) (take 1 demo)) 0 = 0"
proof -
  let ?e = "\<lparr>msg_sender = 1, block_timestamp = 4000\<rparr>"
  have h: "0 < votesCastOn (outcomes (constructor 1) demo) 0"
    by (simp add: demo_def votesCastOn_def contract_defs)
  have k: "creator (votes (run (constructor 1) demo) 0) = 1" "deadline (votes (run (constructor 1) demo) 0) = 3700"
    by (simp_all add: demo_def contract_defs)
  have n: "\<not> isRevealed (votes (run (constructor 1) (take 1 demo)) 0)"
    by (simp add: demo_def contract_defs)
  have r: "fst (revealVoteResults ?e 0 [5, 5] (run (constructor 1) (take 1 demo))) = Inr ()"
    by (simp add: demo_def contract_defs)
  from reveal_only_before_any_vote[of 1 demo 0 ?e "[5, 5]"] h k
  have a: "fst (revealVoteResults ?e 0 [5, 5] (run (constructor 1) demo)) = Inl VoteAlreadyRevealed"
    by simp
  from reveal_only_before_any_vote[of 1 "take 1 demo" 0 ?e "[5, 5]"] n r
  have b: "totalVoters (votes (run (constructor 1) (take 1 demo)) 0) = 0"
    "votesCastOn (outcomes (constructor 1) (take 1 demo)) 0 = 0"
    by blast+
  from h a n b r show ?thesis by blast
qed

text \<open>
  Claim C9 as stated says that the failure is always \<open>VoteAlreadyRevealed\<close>. On a poll
  with one vote, a stranger's call after the deadline fails with \<open>NotVoteCreator\<close>
  and the creator's call before the deadline with \<open>VoteNotExpired\<close>: both checks come
  before the one on \<open>isRevealed\<close>.
\<close>

theorem reveal_after_vote_counterexample:
  "votesCastOn (outcomes (constructor 1) demo) 0 = 1
   \<and> fst (revealVoteResults \<lparr>msg_sender = 5, block_timestamp = 4000\<rparr> 0 [5, 5] (run (constructor 1) demo))
       = Inl NotVoteCreator
   \<and> fst (revealVoteResults \<lparr>msg_sender = 1, block_timestamp = 200\<rparr> 0 [5, 5] (run (constructor 1) demo))
       = Inl VoteNotExpired"
  by (simp add: demo_def votesCastOn_def contract_defs)

section \<open>Casting a vote\<close>

subsection \<open>Runs in the order of time\<close>

lemma chrono_le_clock: "chrono t tr \<Longrightarrow> t \<le> clock t tr"
  by (induction tr arbitrary: t) (auto intro: order_trans)

lemma chrono_append:
  "chrono t (tr @ [x]) \<longleftrightarrow> chrono t tr \<and> clock t tr \<le> block_timestamp (fst x)"
  by (induction tr arbitrary: t) auto

lemma clock_append: "clock t (tr @ [x]) = block_timestamp (fst x)"
  by (induction tr arbitrary: t) auto

lemma settled_mono: "settled t s \<Longrightarrow> t \<le> t' \<Longrightarrow> settled t' s"
  by (auto simp: settled_def intro: order_trans)

lemma settled_transact:
  assumes "inv s" "settled t s" "t \<le> block_timestamp e"
  shows "settled (block_timestamp e) (snd (transact e c s))"
proof -
  have S: "settled (block_timestamp e) s" using assms(2,3) by (rule settled_mono)
  show ?thesis
  proof (cases rule: transact_effect[of e c s])
    case (fail err)
    then show ?thesis using S by simp
  next
    case (create ttl descr opts dl s')
    have "\<not> voteRevealRequested s (nextVoteId s)" using assms(1) by (auto simp: inv_def wf_poll_def)
    with createVote_Inr(7)[OF create(2)] S show ?thesis using create(3) by (auto simp: settled_def)
  next
    case (cast j p s')
    from castVote_Inr(8)[OF cast(2)] S show ?thesis using cast(3) by (auto simp: settled_def)
  next
    case (reveal j cs s')
    from revealVoteResults_Inr(3,6)[OF reveal(2)] S show ?thesis using reveal(3) by (auto simp: settled_def)
  next
    case (endEarly j s')
    from endVoteEarly_Inr(3)[OF endEarly(2)] S show ?thesis using endEarly(3) by (auto simp: settled_def)
  next
    case (owner a)
    then show ?thesis using S by (simp add: settled_def)
  qed
qed

lemma settled_run:
  "inv s \<Longrightarrow> settled t s \<Longrightarrow> chrono t tr \<Longrightarrow> settled (clock t tr) (run s tr)"
proof (induction tr arbitrary: s t)
  case Nil
  then show ?case by simp
next
  case (Cons ec tr)
  from Cons.prems have a: "inv (snd (transact (fst ec) (snd ec) s))" by (simp add: inv_transact)
  from Cons.prems have b: "settled (block_timestamp (fst ec)) (snd (transact (fst ec) (snd ec) s))"
    by (simp add: settled_transact)
  from Cons.prems have c: "chrono (block_timestamp (fst ec)) tr" by simp
  from Cons.IH[OF a b c] show ?case by simp
qed

lemma settled_constructor: "settled t (constructor d)"
  by (simp add: settled_def constructor_def)

subsection \<open>The index read from the payload\<close>

lemma unat_uint16: "unat (ucast (uint16 (hi, lo)) :: uint256) = unat hi * 256 + unat lo"
proof -
  have a: "unat hi < 256" "unat lo < 256" using unsigned_less[of hi] unsigned_less[of lo] by simp_all
  have b: "unat hi * 256 + unat lo < 65536" using a by arith
  have "unat (uint16 (hi, lo)) = unat hi * 256 + unat lo"
    using a b by (simp add: uint16_def unat_word_ariths unsigned_ucast_eq take_bit_eq_mod)
  then show ?thesis using b by (simp add: unsigned_ucast_eq take_bit_eq_mod)
qed

lemma big_endian_two: "big_endian [hi, lo] = unat hi * 256 + unat lo"
  by (simp add: big_endian_def)

lemma choiceIndex_value:
  "unat (choiceIndex p v) =
     (if length p = 2 \<and> big_endian p < length (options v) then big_endian p else 0)"
proof (cases "length p = 2")
  case True
  then obtain hi lo where p: "p = [hi, lo]"
    by (cases p; simp) (metis length_0_conv length_Suc_conv)
  show ?thesis unfolding p
    by (simp add: choiceIndex_def bytes2_def unat_uint16 big_endian_two Let_def)
next
  case False
  then show ?thesis by (simp add: choiceIndex_def Let_def)
qed

lemma choiceIndex_in_range: "options v \<noteq> [] \<Longrightarrow> unat (choiceIndex p v) < length (options v)"
  by (simp add: choiceIndex_value)

subsection \<open>No checked operation panics in a reachable state\<close>

text \<open>
  There are \<open>2 ^ 160\<close> addresses, so \<open>totalVoters\<close> cannot reach the largest
  \<open>uint256\<close>; and a poll that still accepts votes has had no reveal, so each entry of
  its tally is at most \<open>totalVoters\<close>.
\<close>

lemma voters_bound: "card {a :: address. h a} \<le> 2 ^ 160"
proof -
  have "card {a :: address. h a} \<le> card (UNIV :: address set)" by (rule card_mono) simp_all
  then show ?thesis by (simp add: card_word)
qed

lemma unat_max256: "unat (- 1 :: uint256) = 2 ^ 256 - 1"
  by (simp add: unsigned_minus_1_eq_mask mask_eq_exp_minus_1)

lemma castVote_accepts:
  assumes "inv s" "settled t s" "t \<le> block_timestamp e"
    and "isActive (votes s i)" "block_timestamp e < deadline (votes s i)"
    and "\<not> hasVoted (votes s i) (msg_sender e)"
  shows "fst (castVote e i p s) = Inr ()"
proof -
  let ?ci = "unat (choiceIndex p (votes s i))"
  have w: "wf_poll s i" using assms(1) by (simp add: inv_def)
  have tv: "unat (totalVoters (votes s i)) \<le> 2 ^ 160"
    using w voters_bound[of "hasVoted (votes s i)"] by (simp add: wf_poll_def)
  have a: "totalVoters (votes s i) \<noteq> - 1"
  proof
    assume "totalVoters (votes s i) = - 1"
    then have "unat (totalVoters (votes s i)) = 2 ^ 256 - 1" by (simp add: unat_max256)
    with tv show False by simp
  qed
  have ne: "options (votes s i) \<noteq> []" using w assms(4) by (auto simp: wf_poll_def)
  then have b: "?ci < length (options (votes s i))" by (rule choiceIndex_in_range)
  then have c: "?ci < length (revealedCounts (votes s i))" using w by (simp add: wf_poll_def)
  have nf: "\<not> voteRevealRequested s i"
  proof
    assume "voteRevealRequested s i"
    with assms(2) have "deadline (votes s i) \<le> t" by (simp add: settled_def)
    with assms(3,5) show False by simp
  qed
  then have sm: "sum_list (map unat (revealedCounts (votes s i))) = unat (totalVoters (votes s i))"
    using w by (simp add: wf_poll_def)
  have "unat (revealedCounts (votes s i) ! ?ci) \<in> set (map unat (revealedCounts (votes s i)))"
    using c by simp
  then have "unat (revealedCounts (votes s i) ! ?ci) \<le> sum_list (map unat (revealedCounts (votes s i)))"
    by (rule member_le_sum_list) simp
  with sm tv have le: "unat (revealedCounts (votes s i) ! ?ci) \<le> 2 ^ 160" by simp
  have d: "revealedCounts (votes s i) ! ?ci \<noteq> - 1"
  proof
    assume "revealedCounts (votes s i) ! ?ci = - 1"
    then have "unat (revealedCounts (votes s i) ! ?ci) = 2 ^ 256 - 1" by (simp add: unat_max256)
    with le show False by simp
  qed
  show ?thesis using assms(4-6) a b c d
    by (simp add: castVote_def storeVote_def Let_def not_le)
qed

lemma reachable_facts:
  assumes "chrono 0 (tr @ [(e, c)])"
  shows "inv (run (constructor d) tr)" "settled (clock 0 tr) (run (constructor d) tr)"
    "clock 0 tr \<le> block_timestamp e"
proof -
  from assms have c: "chrono 0 tr" and l: "clock 0 tr \<le> block_timestamp e"
    by (simp_all add: chrono_append)
  show "inv (run (constructor d) tr)" by (simp add: inv_run inv_constructor)
  show "settled (clock 0 tr) (run (constructor d) tr)"
    using inv_constructor settled_constructor c by (rule settled_run)
  show "clock 0 tr \<le> block_timestamp e" by (rule l)
qed

lemma demo_state:
  "isActive (votes (run (constructor 1) demo) 0)"
  "deadline (votes (run (constructor 1) demo) 0) = 3700"
  "creator (votes (run (constructor 1) demo) 0) = 1"
  "options (votes (run (constructor 1) demo) 0) = [''A'', ''B'']"
  "revealedCounts (votes (run (constructor 1) demo) 0) = [0, 1]"
  "hasVoted (votes (run (constructor 1) demo) 0) = (\<lambda>a. a = 7)"
  by (simp_all add: demo_def contract_defs fun_eq_iff)

text \<open>
  Claim C3. In a state reached from deployment by calls in the order of time,
  \<open>castVote\<close> fails with \<open>VoteNotFound\<close> when the poll is not active, else with
  \<open>VoteExpired\<close> when the time is not strictly before the deadline, else with
  \<open>AlreadyVoted\<close> when the caller has voted on the poll; when all three checks pass,
  the vote is accepted.
\<close>

theorem castVote_checks_in_order:
  assumes "chrono 0 (tr @ [(e, CastVote i p)])"
  shows "fst (castVote e i p (run (constructor d) tr)) =
     (if \<not> isActive (votes (run (constructor d) tr) i) then Inl VoteNotFound
      else if deadline (votes (run (constructor d) tr) i) \<le> block_timestamp e then Inl VoteExpired
      else if hasVoted (votes (run (constructor d) tr) i) (msg_sender e) then Inl AlreadyVoted
      else Inr ())"
proof -
  let ?s = "run (constructor d) tr"
  note R = reachable_facts[OF assms]
  show ?thesis
  proof (cases "isActive (votes ?s i) \<and> block_timestamp e < deadline (votes ?s i)
                 \<and> \<not> hasVoted (votes ?s i) (msg_sender e)")
    case True
    then have "fst (castVote e i p ?s) = Inr ()"
      using castVote_accepts[OF R(1,2,3)] by blast
    then show ?thesis using True by (simp add: not_le)
  next
    case False
    then show ?thesis by (auto simp add: castVote_def not_less)
  qed
qed

theorem castVote_checks_in_order_witness:
  "chrono 0 (demo @ [(\<lparr>msg_sender = 7, block_timestamp = 102\<rparr>, CastVote 0 [0, 0])])
   \<and> fst (castVote \<lparr>msg_sender = 7, block_timestamp = 102\<rparr> 0 [0, 0] (run (constructor 1) demo))
       = Inl AlreadyVoted"
proof -
  have h: "chrono 0 (demo @ [(\<lparr>msg_sender = 7, block_timestamp = 102\<rparr>, CastVote 0 [0, 0])])"
    by (simp add: demo_def)
  from castVote_checks_in_order[OF h, of 1] h show ?thesis by (simp add: demo_state)
qed

text \<open>
  Claim C1. A \<open>castVote\<close> call that passes the three checks succeeds and counts the
  vote for the index \<open>k\<close>: the big-endian value of the payload when the payload has
  exactly two bytes and that value is below the number of options, and 0 for every other
  payload. Entry \<open>k\<close> of the tally goes up by one, \<open>totalVoters\<close> goes up by one,
  and the event carries \<open>k\<close> and its label.
\<close>

theorem castVote_resolved_index:
  assumes "chrono 0 (tr @ [(e, CastVote i p)])"
    and "isActive (votes (run (constructor d) tr) i)"
    and "block_timestamp e < deadline (votes (run (constructor d) tr) i)"
    and "\<not> hasVoted (votes (run (constructor d) tr) i) (msg_sender e)"
  shows "let s = run (constructor d) tr;
             k = (if length p = 2 \<and> big_endian p < length (options (votes s i)) then big_endian p else 0);
             r = transact e (CastVote i p) s
         in k < length (options (votes s i))
          \<and> fst r = Inr RUnit
          \<and> revealedCounts (votes (snd r) i)
               = (revealedCounts (votes s i))[k := revealedCounts (votes s i) ! k + 1]
          \<and> unat (revealedCounts (votes (snd r) i) ! k) = unat (revealedCounts (votes s i) ! k) + 1
          \<and> totalVoters (votes (snd r) i) = totalVoters (votes s i) + 1
          \<and> emitted (snd r) = emitted s @ [VoteCast i (msg_sender e) (of_nat k) (options (votes s i) ! k)]"
proof -
  let ?s = "run (constructor d) tr"
  let ?k = "unat (choiceIndex p (votes ?s i))"
  note R = reachable_facts[OF assms(1)]
  have ok: "fst (castVote e i p ?s) = Inr ()"
    using castVote_accepts[OF R(1,2,3) assms(2,3,4)] .
  obtain s' where C: "castVote e i p ?s = (Inr (), s')"
    using ok by (cases "castVote e i p ?s") auto
  note E = castVote_Inr[OF C]
  have T: "transact e (CastVote i p) ?s = (Inr RUnit, s')" by (simp add: transact_def C)
  have k: "(if length p = 2 \<and> big_endian p < length (options (votes ?s i)) then big_endian p else 0) = ?k"
    by (rule choiceIndex_value[symmetric])
  have 1: "?k < length (options (votes ?s i))" by (rule E(7))
  have 2: "revealedCounts (votes s' i) = (revealedCounts (votes ?s i))[?k := revealedCounts (votes ?s i) ! ?k + 1]"
    by (simp add: E(8))
  have 3: "unat (revealedCounts (votes s' i) ! ?k) = unat (revealedCounts (votes ?s i) ! ?k) + 1"
    using E(5,6) by (simp add: 2 unat_succ)
  have 4: "emitted s' = emitted ?s @ [VoteCast i (msg_sender e) (of_nat ?k) (options (votes ?s i) ! ?k)]"
    by (simp add: E(8))
  have 5: "totalVoters (votes s' i) = totalVoters (votes ?s i) + 1" by (simp add: E(8))
  show ?thesis unfolding Let_def k T fst_conv snd_conv
    using 1 2 3 4 5 by blast
qed

theorem castVote_resolved_index_witness:
  "chrono 0 (demo @ [(\<lparr>msg_sender = 9, block_timestamp = 103\<rparr>, CastVote 0 [0, 1, 2])])
   \<and> isActive (votes (run (constructor 1) demo) 0)
   \<and> block_timestamp \<lparr>msg_sender = 9, block_timestamp = 103\<rparr> < deadline (votes (run (constructor 1) demo) 0)
   \<and> \<not> hasVoted (votes (run (constructor 1) demo) 0) (msg_sender \<lparr>msg_sender = 9, block_timestamp = 103\<rparr>)
   \<and> fst (transact \<lparr>msg_sender = 9, block_timestamp = 103\<rparr> (CastVote 0 [0, 1, 2]) (run (constructor 1) demo))
       = Inr RUnit
   \<and> revealedCounts (votes (snd (transact \<lparr>msg_sender = 9, block_timestamp = 103\<rparr> (CastVote 0 [0, 1, 2])
        (run (constructor 1) demo))) 0) = [1, 1]"
proof -
  let ?e = "\<lparr>msg_sender = 9, block_timestamp = 103\<rparr>"
  have h1: "chrono 0 (demo @ [(?e, CastVote 0 [0, 1, 2])])" by (simp add: demo_def)
  have h2: "isActive (votes (run (constructor 1) demo) 0)" by (simp add: demo_state)
  have h3: "block_timestamp ?e < deadline (votes (run (constructor 1) demo) 0)" by (simp add: demo_state)
  have h4: "\<not> hasVoted (votes (run (constructor 1) demo) 0) (msg_sender ?e)" by (simp add: demo_state)
  from castVote_resolved_index[OF h1 h2 h3 h4] h1 h2 h3 h4
  show ?thesis by (simp add: Let_def demo_state)
qed

section \<open>The deadline\<close>

lemma active_transact:
  assumes "isActive (votes s i)"
  shows "isActive (votes (snd (transact e c s)) i)"
proof (cases rule: transact_effect[of e c s])
  case (fail err)
  then show ?thesis using assms by auto
next
  case (create ttl descr opts dl s')
  from createVote_Inr(7)[OF create(2)] show ?thesis using create(3) assms by auto
next
  case (cast j p s')
  from castVote_Inr(8)[OF cast(2)] show ?thesis using cast(3) assms by auto
next
  case (reveal j cs s')
  from revealVoteResults_Inr(6)[OF reveal(2)] show ?thesis using reveal(3) assms by auto
next
  case (endEarly j s')
  from endVoteEarly_Inr(3)[OF endEarly(2)] show ?thesis using endEarly(3) assms by auto
next
  case (owner a)
  then show ?thesis using assms by auto
qed

lemma deadline_transact:
  assumes "inv s" "isActive (votes s i)"
  shows "deadline (votes (snd (transact e c s)) i) =
     (if c = EndVoteEarly i \<and> \<not> isl (fst (transact e c s)) then block_timestamp e
      else deadline (votes s i))"
proof (cases rule: transact_effect[of e c s])
  case (fail err)
  then show ?thesis by simp
next
  case (create ttl descr opts dl s')
  have "i \<noteq> nextVoteId s" using assms by (auto simp: inv_def wf_poll_def)
  with createVote_Inr(7)[OF create(2)] show ?thesis using create(1,3) by simp
next
  case (cast j p s')
  from castVote_Inr(8)[OF cast(2)] show ?thesis using cast(1,3) by simp
next
  case (reveal j cs s')
  from revealVoteResults_Inr(6)[OF reveal(2)] show ?thesis using reveal(1,3) by simp
next
  case (endEarly j s')
  from endVoteEarly_Inr(3)[OF endEarly(2)] show ?thesis using endEarly(1,3) by simp
next
  case (owner a)
  then show ?thesis by simp
qed

lemma inactive_transact:
  assumes "\<not> isActive (votes s i)" "fst (transact e c s) \<noteq> Inr (RId i)"
  shows "\<not> isActive (votes (snd (transact e c s)) i)"
proof (cases rule: transact_effect[of e c s])
  case (fail err)
  then show ?thesis using assms by simp
next
  case (create ttl descr opts dl s')
  with assms(2) have "i \<noteq> nextVoteId s" by auto
  with createVote_Inr(7)[OF create(2)] show ?thesis using create(3) assms(1) by simp
next
  case (cast j p s')
  from castVote_Inr(1,8)[OF cast(2)] show ?thesis using cast(3) assms(1) by auto
next
  case (reveal j cs s')
  from revealVoteResults_Inr(1,6)[OF reveal(2)] show ?thesis using reveal(3) assms(1) by auto
next
  case (endEarly j s')
  from endVoteEarly_Inr(1,3)[OF endEarly(2)] show ?thesis using endEarly(3) assms(1) by auto
next
  case (owner a)
  then show ?thesis using assms by simp
qed

lemma deadline_ge_run:
  "inv s \<Longrightarrow> isActive (votes s i) \<Longrightarrow> t0 \<le> deadline (votes s i) \<Longrightarrow> t0 \<le> t \<Longrightarrow> chrono t tr
     \<Longrightarrow> t0 \<le> deadline (votes (run s tr) i) \<and> isActive (votes (run s tr) i)"
proof (induction tr arbitrary: s t)
  case Nil
  then show ?case by simp
next
  case (Cons ec tr)
  let ?s' = "snd (transact (fst ec) (snd ec) s)"
  have le: "t0 \<le> block_timestamp (fst ec)" using Cons.prems(4,5) by (auto intro: order_trans)
  have a: "inv ?s'" using Cons.prems(1) by (rule inv_transact)
  have b: "isActive (votes ?s' i)" using Cons.prems(2) by (rule active_transact)
  have c: "t0 \<le> deadline (votes ?s' i)"
    using deadline_transact[OF Cons.prems(1,2), of "fst ec" "snd ec"] Cons.prems(3) le by simp
  have d: "chrono (block_timestamp (fst ec)) tr" using Cons.prems(5) by simp
  from Cons.IH[OF a b c le d] show ?case by simp
qed

lemma creationOf_Cons:
  "creationOf ((e, c, r) # l) i =
     (case r of Inr (RId j) \<Rightarrow>
        (case c of CreateVote ttl descr opts dl \<Rightarrow>
            if i = j then Some (block_timestamp e, dl) else creationOf l i
         | _ \<Rightarrow> creationOf l i)
      | _ \<Rightarrow> creationOf l i)"
  by (cases r; cases c; simp split: retval.splits)

lemma creation_run:
  "inv s \<Longrightarrow> \<not> isActive (votes s i) \<Longrightarrow> chrono t tr
     \<Longrightarrow> creationOf (outcomes s tr) i = Some (t0, d0)
     \<Longrightarrow> t0 \<le> deadline (votes (run s tr) i) \<and> isActive (votes (run s tr) i) \<and> t0 \<le> clock t tr"
proof (induction tr arbitrary: s t)
  case Nil
  then show ?case by simp
next
  case (Cons ec tr)
  let ?e = "fst ec" and ?c = "snd ec"
  let ?s' = "snd (transact ?e ?c s)"
  have a: "inv ?s'" using Cons.prems(1) by (rule inv_transact)
  have d: "chrono (block_timestamp ?e) tr" using Cons.prems(3) by simp
  show ?case
  proof (cases "fst (transact ?e ?c s) = Inr (RId i)")
    case True
    then obtain ttl descr opts dl s' where c: "?c = CreateVote ttl descr opts dl"
      and C: "createVote ?e ttl descr opts dl s = (Inr (nextVoteId s), s')"
      and T: "transact ?e ?c s = (Inr (RId (nextVoteId s)), s')"
      by (cases rule: transact_effect[of ?e ?c s]) auto
    from T True have i: "i = nextVoteId s" by simp
    note E = createVote_Inr[OF C]
    from Cons.prems(4) T c i have t0: "t0 = block_timestamp ?e" and "d0 = dl"
      by (simp_all add: creationOf_Cons)
    have b: "isActive (votes ?s' i)" using T i by (simp add: E(7))
    have dl: "deadline (votes ?s' i) = dl" using T i by (simp add: E(7))
    have c': "t0 \<le> deadline (votes ?s' i)" using E(4) t0 dl by simp
    have "t0 \<le> block_timestamp ?e" using t0 by simp
    from deadline_ge_run[OF a b c' this d] chrono_le_clock[OF d] t0
    show ?thesis by simp
  next
    case False
    with Cons.prems(2) have b: "\<not> isActive (votes ?s' i)" by (rule inactive_transact)
    have "creationOf (outcomes ?s' tr) i = Some (t0, d0)"
      using Cons.prems(4) False
      by (cases "fst (transact ?e ?c s)"; cases ?c)
         (auto simp add: creationOf_Cons split: retval.splits if_splits)
    from Cons.IH[OF a b d this] show ?thesis by simp
  qed
qed

text \<open>
  Claim C4, as amended. For a poll created at time \<open>t0\<close> in a run that follows the
  order of time, a call changes the poll's deadline only if it is a successful
  \<open>endVoteEarly\<close> on that poll, which sets it to the time of the call; that time, and
  the deadline at every moment, is never earlier than \<open>t0\<close>.
\<close>

theorem deadline_changes_only_by_endVoteEarly:
  assumes "chrono 0 (tr @ [(e, c)])"
    and "creationOf (outcomes (constructor d) tr) i = Some (t0, d0)"
  shows "let s = run (constructor d) tr; r = transact e c s
         in deadline (votes (snd r) i)
              = (if c = EndVoteEarly i \<and> \<not> isl (fst r) then block_timestamp e
                 else deadline (votes s i))
          \<and> t0 \<le> block_timestamp e
          \<and> t0 \<le> deadline (votes s i)
          \<and> t0 \<le> deadline (votes (snd r) i)"
proof -
  let ?s = "run (constructor d) tr"
  from assms(1) have c: "chrono 0 tr" and l: "clock 0 tr \<le> block_timestamp e"
    by (simp_all add: chrono_append)
  have z: "\<not> isActive (votes (constructor d) i)" by (simp add: constructor_def zeroVote_def)
  from creation_run[OF inv_constructor z c assms(2)]
  have 1: "t0 \<le> deadline (votes ?s i)" and 2: "isActive (votes ?s i)" and 3: "t0 \<le> clock 0 tr"
    by simp_all
  have 4: "t0 \<le> block_timestamp e" using 3 l by (rule order_trans)
  have I: "inv ?s" by (simp add: inv_run inv_constructor)
  note D = deadline_transact[OF I 2, of e c]
  have 5: "t0 \<le> deadline (votes (snd (transact e c ?s)) i)" using D 1 4 by simp
  show ?thesis unfolding Let_def using D 1 4 5 by blast
qed

theorem deadline_changes_only_by_endVoteEarly_witness:
  "chrono 0 (demo @ [(\<lparr>msg_sender = 1, block_timestamp = 200\<rparr>, EndVoteEarly 0)])
   \<and> creationOf (outcomes (constructor 1) demo) 0 = Some (100, 3700)
   \<and> deadline (votes (snd (transact \<lparr>msg_sender = 1, block_timestamp = 200\<rparr> (EndVoteEarly 0)
        (run (constructor 1) demo))) 0) = 200"
proof -
  let ?e = "\<lparr>msg_sender = 1, block_timestamp = 200\<rparr>"
  have h1: "chrono 0 (demo @ [(?e, EndVoteEarly 0)])" by (simp add: demo_def)
  have h2: "creationOf (outcomes (constructor 1) demo) 0 = Some (100, 3700)"
    by (simp add: demo_def contract_defs)
  have k: "fst (transact ?e (EndVoteEarly 0) (run (constructor 1) demo)) = Inr RUnit"
    by (simp add: transact_def endVoteEarly_def demo_state)
  from deadline_changes_only_by_endVoteEarly[OF h1 h2] h1 h2 k
  show ?thesis by (simp add: Let_def)
qed

text \<open>
  Claim C4 as stated adds that the new deadline is never later than the original one.
  \<open>endVoteEarly\<close> does not look at the deadline: called by the creator at time 5000
  on a poll whose deadline was 3700, it succeeds and moves the deadline to 5000.
\<close>

theorem endVoteEarly_after_deadline_counterexample:
  "chrono 0 (demo @ [(\<lparr>msg_sender = 1, block_timestamp = 5000\<rparr>, EndVoteEarly 0)])
   \<and> creationOf (outcomes (constructor 1) demo) 0 = Some (100, 3700)
   \<and> deadline (votes (run (constructor 1) demo) 0) = 3700
   \<and> fst (transact \<lparr>msg_sender = 1, block_timestamp = 5000\<rparr> (EndVoteEarly 0) (run (constructor 1) demo))
       = Inr RUnit
   \<and> deadline (votes (snd (transact \<lparr>msg_sender = 1, block_timestamp = 5000\<rparr> (EndVoteEarly 0)
        (run (constructor 1) demo))) 0) = 5000
   \<and> (3700 :: uint256) < 5000"
proof -
  have a: "chrono 0 (demo @ [(\<lparr>msg_sender = 1, block_timestamp = 5000\<rparr>, EndVoteEarly 0)])"
    by (simp add: demo_def)
  have b: "creationOf (outcomes (constructor 1) demo) 0 = Some (100, 3700)"
    by (simp add: demo_def contract_defs)
  have c: "transact \<lparr>msg_sender = 1, block_timestamp = 5000\<rparr> (EndVoteEarly 0) (run (constructor 1) demo)
      = (Inr RUnit, storeVote 0 (\<lambda>v. v\<lparr> deadline := 5000 \<rparr>) (run (constructor 1) demo))"
    by (simp add: transact_def endVoteEarly_def demo_state)
  show ?thesis using a b by (simp add: c demo_state storeVote_def)
qed

end
